theory Spec2Isabelle
  imports Main "HOL-Library.Sublist"
begin

section \<open>Characters and strings\<close>

text \<open>
  A C++ \<open>char\<close> is an 8-bit \<^typ>\<open>char\<close>, a \<open>std::string\<close> a \<^typ>\<open>string\<close>.
  The character classes are those of the C locale, which the program never changes.
  Indices and counters are unbounded naturals: no counter of the source can overflow on
  an input shorter than \<open>2^31\<close> bytes.
\<close>

definition isspace :: "char \<Rightarrow> bool" where
  "isspace c = (let n = (of_char c :: nat) in n = 32 \<or> (9 \<le> n \<and> n \<le> 13))"

definition isdigit :: "char \<Rightarrow> bool" where
  "isdigit c = (let n = (of_char c :: nat) in 48 \<le> n \<and> n \<le> 57)"

definition tolower :: "char \<Rightarrow> char" where
  "tolower c = (let n = (of_char c :: nat) in if 65 \<le> n \<and> n \<le> 90 then char_of (n + 32) else c)"

definition to_lower :: "string \<Rightarrow> string" where
  "to_lower s = map tolower s"

text \<open>\<open>s.substr(pos, n)\<close>, used by the source only with \<open>pos \<le> s.size()\<close>.\<close>

definition substr :: "string \<Rightarrow> nat \<Rightarrow> nat \<Rightarrow> string" where
  "substr s pos n = take n (drop pos s)"

text \<open>
  \<open>hay.find(needle, pos)\<close>: the least index \<open>i \<ge> pos\<close> at which \<open>needle\<close> starts,
  \<open>None\<close> for \<open>npos\<close>. \<open>find_from\<close> walks the suffix that starts at index \<open>i\<close>.
\<close>

fun find_from :: "string \<Rightarrow> string \<Rightarrow> nat \<Rightarrow> nat option" where
  "find_from needle [] i = (if needle = [] then Some i else None)"
| "find_from needle (c # cs) i =
     (if prefix needle (c # cs) then Some i else find_from needle cs (Suc i))"

definition find_str :: "string \<Rightarrow> string \<Rightarrow> nat \<Rightarrow> nat option" where
  "find_str hay needle pos =
     (if pos > length hay then None else find_from needle (drop pos hay) pos)"

definition find_chr :: "string \<Rightarrow> char \<Rightarrow> nat \<Rightarrow> nat option" where
  "find_chr hay c pos = find_str hay [c] pos"

text \<open>\<open>trim\<close>: two index loops, then \<open>substr\<close>.\<close>

function trim_start :: "string \<Rightarrow> nat \<Rightarrow> nat" where
  "trim_start s start =
     (if start < length s \<and> isspace (s ! start) then trim_start s (Suc start) else start)"
  by pat_completeness auto
termination
  by (relation "measure (\<lambda>(s, start). length s - start)") auto

function trim_end :: "string \<Rightarrow> nat \<Rightarrow> nat \<Rightarrow> nat" where
  "trim_end s start end' =
     (if end' > start \<and> isspace (s ! (end' - 1)) then trim_end s start (end' - 1) else end')"
  by pat_completeness auto
termination
  by (relation "measure (\<lambda>(s, start, end'). end')") auto

definition trim :: "string \<Rightarrow> string" where
  "trim s = (let start = trim_start s 0; end' = trim_end s start (length s)
             in substr s start (end' - start))"

text \<open>
  \<open>iss >> token\<close> skips leading white space and reads up to the next white space; it
  fails when nothing but white space is left. \<open>split_ws\<close> collects the tokens.
\<close>

function split_ws :: "string \<Rightarrow> string list" where
  "split_ws line =
     (let s = dropWhile isspace line
      in if s = [] then []
         else takeWhile (\<lambda>c. \<not> isspace c) s # split_ws (dropWhile (\<lambda>c. \<not> isspace c) s))"
  by pat_completeness auto
termination
proof (relation "measure length")
  show "wf (measure length)" by simp
next
  fix line s :: string
  assume s: "s = dropWhile isspace line" and ne: "s \<noteq> []"
  from ne obtain c cs where cs: "s = c # cs" by (cases s) auto
  have "length (dropWhile (\<lambda>c. \<not> isspace c) s) \<le> length s"
    by (rule length_dropWhile_le)
  moreover have "\<not> isspace (hd s)"
    using ne unfolding s by (rule hd_dropWhile)
  then have "dropWhile (\<lambda>c. \<not> isspace c) s = dropWhile (\<lambda>c. \<not> isspace c) cs"
    using cs by simp
  moreover have "length (dropWhile (\<lambda>c. \<not> isspace c) cs) \<le> length cs"
    by (rule length_dropWhile_le)
  ultimately have "length (dropWhile (\<lambda>c. \<not> isspace c) s) < length s"
    using cs by simp
  also have "length s \<le> length line"
    unfolding s by (rule length_dropWhile_le)
  finally show "(dropWhile (\<lambda>c. \<not> isspace c) s, line) \<in> measure length" by simp
qed

text \<open>
  \<open>std::getline(iss, part, delim)\<close> on the unread rest of a string stream: it fails
  when nothing is left to read; otherwise it reads up to the next delimiter, which it
  consumes and does not store, or up to the end. A delimiter that ends the stream
  therefore leaves nothing for a further, empty part.
\<close>

fun getline :: "char \<Rightarrow> string \<Rightarrow> (string \<times> string) option" where
  "getline delim [] = None"
| "getline delim (c # cs) =
     Some (takeWhile (\<lambda>x. x \<noteq> delim) (c # cs), drop 1 (dropWhile (\<lambda>x. x \<noteq> delim) (c # cs)))"

lemma getline_shorter:
  assumes "getline delim s = Some (part, rest)"
  shows "length rest < length s"
proof (cases s)
  case Nil
  with assms show ?thesis by simp
next
  case (Cons c cs)
  have "length (dropWhile (\<lambda>x. x \<noteq> delim) s) \<le> length s"
    by (rule length_dropWhile_le)
  then have "length (drop 1 (dropWhile (\<lambda>x. x \<noteq> delim) s)) < length s"
    using Cons by simp
  with assms Cons show ?thesis by simp
qed

text \<open>\<open>while (std::getline(iss, part, delim))\<close>, collecting every part read.\<close>

function getlines :: "char \<Rightarrow> string \<Rightarrow> string list" where
  "getlines delim s =
     (case getline delim s of None \<Rightarrow> [] | Some (part, rest) \<Rightarrow> part # getlines delim rest)"
  by pat_completeness auto
termination
  by (relation "measure (\<lambda>(delim, s). length s)") (auto dest: getline_shorter)

declare trim_start.simps [simp del] trim_end.simps [simp del] split_ws.simps [simp del]
  getlines.simps [simp del]

section \<open>IPv4 validator\<close>

datatype exn = invalid_argument | out_of_range | filesystem_error | ios_failure

definition digit_val :: "char \<Rightarrow> int" where
  "digit_val c = int (of_char c) - 48"

definition decimal :: "string \<Rightarrow> int" where
  "decimal ds = foldl (\<lambda>a c. a * 10 + digit_val c) 0 ds"

text \<open>
  \<open>std::stoi\<close>: white space, an optional sign, then decimal digits; it throws
  \<open>invalid_argument\<close> when there is no digit and \<open>out_of_range\<close> when the value does
  not fit a 32-bit \<open>int\<close>.
\<close>

definition stoi :: "string \<Rightarrow> exn + int" where
  "stoi str =
     (let s = dropWhile isspace str;
          neg = (take 1 s = ''-'');
          s' = (if take 1 s = ''-'' \<or> take 1 s = ''+'' then drop 1 s else s);
          ds = takeWhile isdigit s';
          v = (if neg then - decimal ds else decimal ds)
      in if ds = [] then Inl invalid_argument
         else if v < - (2 ^ 31) \<or> 2 ^ 31 - 1 < v then Inl out_of_range
         else Inr v)"

text \<open>The loop of \<open>is_ipv4\<close> over the unread rest \<open>iss\<close> of the stream.\<close>

function is_ipv4_loop :: "string \<Rightarrow> nat \<Rightarrow> exn + bool" where
  "is_ipv4_loop iss parts =
     (case getline (CHR ''.'') iss of
        None \<Rightarrow> Inr (parts = 4)
      | Some (part, rest) \<Rightarrow>
          if part = [] \<or> length part > 3 then Inr False
          else if \<not> list_all isdigit part then Inr False
          else (case stoi part of
                  Inl e \<Rightarrow> Inl e
                | Inr v \<Rightarrow>
                    if v < 0 \<or> v > 255 then Inr False
                    else is_ipv4_loop rest (parts + 1)))"
  by pat_completeness auto
termination
  by (relation "measure (\<lambda>(iss, parts). length iss)") (auto dest: getline_shorter)

definition is_ipv4 :: "string \<Rightarrow> exn + bool" where
  "is_ipv4 ip =
     (if find_chr ip (CHR '':'') 0 \<noteq> None then Inr False else is_ipv4_loop ip 0)"

declare is_ipv4_loop.simps [simp del]

text \<open>
  A segment of a dotted quad: one to three decimal digits whose value is in \<open>[0,255]\<close>.
\<close>

definition octet :: "string \<Rightarrow> bool" where
  "octet part = (part \<noteq> [] \<and> length part \<le> 3 \<and> list_all isdigit part
                 \<and> 0 \<le> decimal part \<and> decimal part \<le> 255)"

text \<open>
  The dotted quad as it is usually read: the text split at every \<open>.\<close>, so that a
  delimiter at either end leaves an empty segment there, has exactly four segments, each
  of them an octet, and the text has no colon. \<open>chomp d s\<close> is \<open>s\<close> less one final \<open>d\<close>.
\<close>

fun split_on :: "char \<Rightarrow> string \<Rightarrow> string list" where
  "split_on d [] = [[]]"
| "split_on d (c # cs) =
     (if c = d then [] # split_on d cs
      else (case split_on d cs of [] \<Rightarrow> [[c]] | seg # segs \<Rightarrow> (c # seg) # segs))"

definition dotted_quad :: "string \<Rightarrow> bool" where
  "dotted_quad s =
     (CHR '':'' \<notin> set s \<and> length (split_on (CHR ''.'') s) = 4
      \<and> list_all octet (split_on (CHR ''.'') s))"

definition chomp :: "char \<Rightarrow> string \<Rightarrow> string" where
  "chomp d s = (if s \<noteq> [] \<and> last s = d then butlast s else s)"

section \<open>JSON string unescaper\<close>

definition isxdigit :: "char \<Rightarrow> bool" where
  "isxdigit c = (let n = (of_char c :: nat)
                 in (48 \<le> n \<and> n \<le> 57) \<or> (65 \<le> n \<and> n \<le> 70) \<or> (97 \<le> n \<and> n \<le> 102))"

definition xdigit_val :: "char \<Rightarrow> nat" where
  "xdigit_val c = (let n = (of_char c :: nat)
                   in if n \<le> 57 then n - 48 else if n \<le> 70 then n - 55 else n - 87)"

definition hexadecimal :: "string \<Rightarrow> nat" where
  "hexadecimal ds = foldl (\<lambda>a c. a * 16 + xdigit_val c) 0 ds"

text \<open>
  \<open>iss >> std::hex >> code\<close> on a stream over the four characters \<open>hex\<close>, for an
  \<open>unsigned int code = 0\<close>: the extraction skips white space, takes an optional sign and
  an optional \<open>0x\<close>, and reads hexadecimal digits as far as they go. When it finds no
  digit it stores 0; a minus sign negates modulo \<open>2^32\<close>.
\<close>

definition read_hex :: "string \<Rightarrow> nat" where
  "read_hex hex =
     (let s = dropWhile isspace hex;
          neg = (take 1 s = ''-'');
          s1 = (if take 1 s = ''-'' \<or> take 1 s = ''+'' then drop 1 s else s);
          s2 = (if take 2 s1 = ''0x'' \<or> take 2 s1 = ''0X'' then drop 2 s1 else s1);
          v = hexadecimal (takeWhile isxdigit s2)
      in if neg then (2 ^ 32 - v) mod 2 ^ 32 else v)"

text \<open>
  One iteration of the loop of \<open>unescape_json_string\<close> at index \<open>i < s.size()\<close>: the
  characters it appends to \<open>out\<close>, and the index at which the next iteration starts.
\<close>

definition unescape_step :: "string \<Rightarrow> nat \<Rightarrow> string \<times> nat" where
  "unescape_step s i =
     (let c = s ! i
      in if c \<noteq> CHR 0x5C \<or> i + 1 \<ge> length s then ([c], i + 1)
         else
           (let n = s ! (i + 1)
            in if n = CHR 0x5C then ([CHR 0x5C], i + 2)
               else if n = CHR 0x22 then ([CHR 0x22], i + 2)
               else if n = CHR ''/'' then ([CHR ''/''], i + 2)
               else if n = CHR ''b'' then ([CHR 0x08], i + 2)
               else if n = CHR ''f'' then ([CHR 0x0C], i + 2)
               else if n = CHR ''n'' then ([CHR 0x0A], i + 2)
               else if n = CHR ''r'' then ([CHR 0x0D], i + 2)
               else if n = CHR ''t'' then ([CHR 0x09], i + 2)
               else if n = CHR ''u'' then
                 (if (i + 1) + 4 < length s then
                    (let hex = substr s (i + 2) 4; code = read_hex hex
                     in ([if code \<le> 0x7F then char_of code else CHR ''?''], i + 6))
                  else ([], i + 2))
               else ([n], i + 2)))"

lemma unescape_step_advances: "unescape_step s i = (pushed, i') \<Longrightarrow> i < i'"
  by (auto simp: unescape_step_def Let_def split: if_splits)

function unescape_loop :: "string \<Rightarrow> nat \<Rightarrow> string \<Rightarrow> string" where
  "unescape_loop s i out =
     (if i < length s
      then (case unescape_step s i of (pushed, i') \<Rightarrow> unescape_loop s i' (out @ pushed))
      else out)"
  by pat_completeness auto
termination
  by (relation "measure (\<lambda>(s, i, out). length s - i)")
    (auto dest!: unescape_step_advances [OF sym])

declare unescape_loop.simps [simp del]

definition unescape_json_string :: "string \<Rightarrow> string" where
  "unescape_json_string s = unescape_loop s 0 []"

text \<open>
  The same decoding by recursion on the text that is left to read: what one iteration
  of the loop emits depends on that text only.
\<close>

definition escaped :: "char \<Rightarrow> char" where
  "escaped n =
     (if n = CHR ''b'' then CHR 0x08 else if n = CHR ''f'' then CHR 0x0C
      else if n = CHR ''n'' then CHR 0x0A else if n = CHR ''r'' then CHR 0x0D
      else if n = CHR ''t'' then CHR 0x09 else n)"

fun unescape_text :: "string \<Rightarrow> string" where
  "unescape_text [] = []"
| "unescape_text [c] = [c]"
| "unescape_text (c # n # rest) =
     (if c \<noteq> CHR 0x5C then c # unescape_text (n # rest)
      else if n = CHR ''u'' then
        (case rest of
           h1 # h2 # h3 # h4 # rest' \<Rightarrow>
             (let code = read_hex [h1, h2, h3, h4]
              in (if code \<le> 0x7F then char_of code else CHR ''?'') # unescape_text rest')
         | _ \<Rightarrow> unescape_text rest)
      else escaped n # unescape_text rest)"

text \<open>
  The decoding as the specification words it: a \<open>u\<close> escape is one that is followed by
  four hexadecimal digits, and every other escaped character, a \<open>u\<close> without four such
  digits among them, falls to the rule for other escapes and is emitted as it is.
\<close>

fun unescape_spec :: "string \<Rightarrow> string" where
  "unescape_spec [] = []"
| "unescape_spec [c] = [c]"
| "unescape_spec (c # n # rest) =
     (if c \<noteq> CHR 0x5C then c # unescape_spec (n # rest)
      else if n = CHR ''u'' \<and> 4 \<le> length rest \<and> list_all isxdigit (take 4 rest) then
        (if hexadecimal (take 4 rest) \<le> 0x7F then char_of (hexadecimal (take 4 rest))
         else CHR ''?'') # unescape_spec (drop 4 rest)
      else escaped n # unescape_spec rest)"

section \<open>Title extraction\<close>

definition extract_title :: "string \<Rightarrow> string" where
  "extract_title html =
     (let lower = to_lower html
      in case find_str lower ''<title'' 0 of
           None \<Rightarrow> ''No title found''
         | Some start \<Rightarrow>
             (case find_chr lower (CHR ''>'') start of
                None \<Rightarrow> ''No title found''
              | Some gt \<Rightarrow>
                  (case find_str lower ''</title>'' gt of
                     None \<Rightarrow> ''No title found''
                   | Some end' \<Rightarrow>
                       if end' \<le> gt then ''No title found''
                       else
                         (let title = trim (substr html (gt + 1) (end' - gt - 1))
                          in if title = [] then ''No title found'' else title))))"

text \<open>
  What the searches of \<open>extract_title\<close> find, stated without the search: \<open>needle\<close>
  occurs in \<open>hay\<close> at index \<open>i\<close>; \<open>i\<close> is the first such index from \<open>pos\<close> on.
\<close>

definition occurs_at :: "string \<Rightarrow> string \<Rightarrow> nat \<Rightarrow> bool" where
  "occurs_at needle hay i = (i \<le> length hay \<and> prefix needle (drop i hay))"

definition first_at :: "string \<Rightarrow> string \<Rightarrow> nat \<Rightarrow> nat \<Rightarrow> bool" where
  "first_at needle hay pos i =
     (pos \<le> i \<and> occurs_at needle hay i \<and> (\<forall>j \<in> {pos..<i}. \<not> occurs_at needle hay j))"

section \<open>Field extraction by regular expression\<close>

text \<open>
  The three patterns of \<open>build_list_from_asn_json\<close> and the pattern of
  \<open>extract_json_string_value\<close> start alike: the quoted key, \<open>\s*:\s*\<close> and an opening
  quote. No step of these patterns can match in two ways (white space is taken up to the
  colon and up to the quote, the value up to the closing quote), so the match at a
  position is computed from left to right. \<open>match_head key s\<close> is the text after the
  opening quote when \<open>s\<close> starts with such a head.
\<close>

definition match_head :: "string \<Rightarrow> string \<Rightarrow> string option" where
  "match_head key s =
     (if prefix key s then
        (case dropWhile isspace (drop (length key) s) of
           [] \<Rightarrow> None
         | c # r \<Rightarrow>
             if c = CHR '':'' then
               (case dropWhile isspace r of
                  [] \<Rightarrow> None
                | q # v \<Rightarrow> if q = CHR 0x22 then Some v else None)
             else None)
      else None)"

text \<open>
  \<open>([^"]+)"\<close>: one or more characters other than a quote, then a quote. The result is
  the captured value and the text after the match.
\<close>

definition match_plain_value :: "string \<Rightarrow> (string \<times> string) option" where
  "match_plain_value v =
     (let val = takeWhile (\<lambda>c. c \<noteq> CHR 0x22) v; r = dropWhile (\<lambda>c. c \<noteq> CHR 0x22) v
      in if val \<noteq> [] \<and> r \<noteq> [] then Some (val, drop 1 r) else None)"

text \<open>
  \<open>((?:[^\\"]|\\.)*)"\<close>: characters other than backslash and quote, and pairs of a
  backslash and any character but a line terminator, up to a quote.
\<close>

fun match_json_value :: "string \<Rightarrow> (string \<times> string) option" where
  "match_json_value [] = None"
| "match_json_value [c] = (if c = CHR 0x22 then Some ([], []) else None)"
| "match_json_value (c # e # r) =
     (if c = CHR 0x22 then Some ([], e # r)
      else if c = CHR 0x5C then
        (if e = CHR 0x0A \<or> e = CHR 0x0D then None
         else map_option (\<lambda>(v, rest). (c # e # v, rest)) (match_json_value r))
      else map_option (\<lambda>(v, rest). (c # v, rest)) (match_json_value (e # r)))"

text \<open>\<open>std::regex_search\<close>: the match at the first position that has one.\<close>

fun regex_search :: "(string \<Rightarrow> (string \<times> string) option) \<Rightarrow> string \<Rightarrow> (string \<times> string) option" where
  "regex_search m [] = m []"
| "regex_search m (c # cs) =
     (case m (c # cs) of Some r \<Rightarrow> Some r | None \<Rightarrow> regex_search m cs)"

definition quoted :: "string \<Rightarrow> string" where
  "quoted name = CHR 0x22 # name @ [CHR 0x22]"

definition asn_field :: "string \<Rightarrow> string \<Rightarrow> (string \<times> string) option" where
  "asn_field name s =
     (case match_head (quoted name) s of None \<Rightarrow> None | Some v \<Rightarrow> match_plain_value v)"

lemma match_head_shorter: "match_head key s = Some v \<Longrightarrow> length v < length s"
proof -
  assume a: "match_head key s = Some v"
  then obtain c r where 1: "dropWhile isspace (drop (length key) s) = c # r"
    by (auto simp: match_head_def split: if_splits list.splits)
  with a obtain q where 2: "dropWhile isspace r = q # v"
    by (auto simp: match_head_def split: if_splits list.splits)
  have "length (dropWhile isspace (drop (length key) s)) \<le> length (drop (length key) s)"
    by (rule length_dropWhile_le)
  with 1 have "length r < length s" by simp
  moreover have "length (dropWhile isspace r) \<le> length r" by (rule length_dropWhile_le)
  ultimately show ?thesis using 2 by simp
qed

lemma match_plain_value_shorter:
  "match_plain_value v = Some (val, rest) \<Longrightarrow> length rest \<le> length v"
proof -
  have "length (dropWhile (\<lambda>c. c \<noteq> CHR 0x22) v) \<le> length v" by (rule length_dropWhile_le)
  moreover assume "match_plain_value v = Some (val, rest)"
  ultimately show ?thesis
    by (auto simp: match_plain_value_def Let_def split: if_splits)
qed

lemma asn_field_shorter: "asn_field name s = Some (val, rest) \<Longrightarrow> length rest < length s"
  by (auto simp: asn_field_def split: option.splits
      dest!: match_head_shorter match_plain_value_shorter)

lemma regex_search_asn_shorter:
  "regex_search (asn_field name) s = Some (val, rest) \<Longrightarrow> length rest < length s"
proof (induction s)
  case Nil
  then show ?case by (auto dest: asn_field_shorter)
next
  case (Cons c cs)
  then show ?case
    by (cases "asn_field name (c # cs)") (auto dest: asn_field_shorter)
qed

text \<open>
  The loop over \<open>std::sregex_iterator\<close>: every match in document order, each search
  starting where the last match ended; the captured values are collected.
\<close>

function asn_values :: "string \<Rightarrow> string \<Rightarrow> string list" where
  "asn_values name content =
     (case regex_search (asn_field name) content of
        None \<Rightarrow> []
      | Some (val, rest) \<Rightarrow> val # asn_values name rest)"
  by pat_completeness auto
termination
  by (relation "measure (\<lambda>(name, content). length content)")
    (auto dest: regex_search_asn_shorter)

declare asn_values.simps [simp del]

definition json_field :: "string \<Rightarrow> string \<Rightarrow> (string \<times> string) option" where
  "json_field key s =
     (case match_head key s of None \<Rightarrow> None | Some v \<Rightarrow> match_json_value v)"

text \<open>\<open>key\<close> is the key with its quotes, as the caller passes it.\<close>

definition extract_json_string_value :: "string \<Rightarrow> string \<Rightarrow> string option" where
  "extract_json_string_value line key =
     (case regex_search (json_field key) line of
        Some (val, rest) \<Rightarrow> Some (unescape_json_string val)
      | None \<Rightarrow> None)"

section \<open>Files and diagnostics\<close>

text \<open>
  The state of a run: the regular files with their contents, the directories, the paths
  that cannot be opened for reading or for writing, and the trace of what the program
  has done to the file system and printed so far, in order. A diagnostic is recorded by
  its kind and its arguments, not as rendered text. An output stream is identified with
  the path it was opened on; what is written through it is appended to that file. The
  functions below are used with input and output paths that differ, as \<open>main\<close> calls
  them.
\<close>

type_synonym path = string

datatype message =
    FailedToOpen path
  | CouldNotParse path
  | FailedToWrite path
  | WroteRanges nat path
  | FailedToRead path
  | FailedOutputIpFiles
  | OpenPort80 nat
  | OpenPort443 nat
  | Usage
  | UnknownOption string
  | UnexpectedArgument string
  | Cmd string
  | MasscanNotFound
  | FailedCloneMasscan
  | FailedBuildMasscan
  | MasscanNoBinary
  | Zgrab2NotFound
  | FailedCloneZgrab2
  | FailedBuildZgrab2
  | MasscanRequired
  | Zgrab2Required
  | CountryRequiresJson
  | ListFileNotFound path
  | FailedPrepareList
  | MasscanFailed
  | ZgrabFailed80
  | ZgrabFailed443
  | FailedOpenOutput path
  | Success

datatype event =
    Cout message
  | Cerr message
  | OpenIn path
  | OpenOut path
  | FsExists path
  | FsCreateDirectories path
  | FsEquivalent path path
  | FsCopyFile path path
  | FsFileSize path
  | System string

record world =
  files :: "path \<rightharpoonup> string"
  dirs :: "path set"
  unreadable :: "path set"
  unwritable :: "path set"
  trace :: "event list"

definition log :: "event \<Rightarrow> world \<Rightarrow> world" where
  "log e w = w\<lparr>trace := trace w @ [e]\<rparr>"

text \<open>
  \<open>std::ifstream in(p)\<close>: \<open>None\<close> when the open fails. A regular file opens on its
  contents. A directory opens as well, and every read from it fails: a read through the
  stream (\<open>std::getline\<close>) finds no line, and a read from the buffer itself
  (\<open>std::istreambuf_iterator\<close>) throws \<open>std::ios_base::failure\<close>. A path is a regular
  file when \<open>files\<close> has it, and a directory when it is in \<open>dirs\<close> and is no regular
  file.
\<close>

datatype source = Contents string | Directory

definition open_in :: "path \<Rightarrow> world \<Rightarrow> source option \<times> world" where
  "open_in p w =
     (if p \<in> unreadable w then None
      else (case files w p of
              Some content \<Rightarrow> Some (Contents content)
            | None \<Rightarrow> if p \<in> dirs w then Some Directory else None),
      log (OpenIn p) w)"

text \<open>\<open>std::ofstream out(p)\<close>: creates or truncates the file; false when it does not open.\<close>

definition open_out :: "path \<Rightarrow> world \<Rightarrow> bool \<times> world" where
  "open_out p w =
     (if p \<in> unwritable w then (False, log (OpenOut p) w)
      else (True, log (OpenOut p) (w\<lparr>files := (files w)(p \<mapsto> [])\<rparr>)))"

text \<open>\<open>out << text\<close> on the stream opened on \<open>p\<close>.\<close>

definition write_out :: "path \<Rightarrow> string \<Rightarrow> world \<Rightarrow> world" where
  "write_out p text w =
     w\<lparr>files := (files w)(p \<mapsto> (case files w p of None \<Rightarrow> text | Some c \<Rightarrow> c @ text))\<rparr>"

section \<open>ASN range extractor\<close>

text \<open>
  The emission loop of \<open>build_list_from_asn_json\<close> from index \<open>i\<close> on, with \<open>count\<close>
  ranges written so far; it runs with \<open>starts\<close> and \<open>ends\<close> of equal length.
\<close>

function asn_loop ::
  "string list \<Rightarrow> string list \<Rightarrow> string list \<Rightarrow> string \<Rightarrow> path \<Rightarrow> nat \<Rightarrow> nat \<Rightarrow> world
    \<Rightarrow> (exn + nat) \<times> world" where
  "asn_loop starts ends countries country_filter list_path i count w =
     (if i < length starts then
        (if country_filter \<noteq> [] \<and>
            (i \<ge> length countries \<or> to_lower (countries ! i) \<noteq> to_lower country_filter)
         then asn_loop starts ends countries country_filter list_path (i + 1) count w
         else
           (case is_ipv4 (starts ! i) of
              Inl e \<Rightarrow> (Inl e, w)
            | Inr ok_start \<Rightarrow>
                if \<not> ok_start
                then asn_loop starts ends countries country_filter list_path (i + 1) count w
                else
                  (case is_ipv4 (ends ! i) of
                     Inl e \<Rightarrow> (Inl e, w)
                   | Inr ok_end \<Rightarrow>
                       if ok_end
                       then asn_loop starts ends countries country_filter list_path (i + 1)
                              (count + 1)
                              (write_out list_path (starts ! i @ ''-'' @ ends ! i @ [CHR 0x0A]) w)
                       else asn_loop starts ends countries country_filter list_path (i + 1)
                              count w)))
      else (Inr count, w))"
  by pat_completeness auto
termination
  by (relation "measure (\<lambda>(starts, ends, countries, country_filter, list_path, i, count, w).
        length starts - i)") auto

declare asn_loop.simps [simp del]

definition build_list_from_asn_json :: "path \<Rightarrow> path \<Rightarrow> string \<Rightarrow> world \<Rightarrow> (exn + bool) \<times> world" where
  "build_list_from_asn_json json_path list_path country_filter w =
     (case open_in json_path w of
        (None, w1) \<Rightarrow> (Inr False, log (Cerr (FailedToOpen json_path)) w1)
      | (Some Directory, w1) \<Rightarrow> (Inl ios_failure, w1)
      | (Some (Contents content), w1) \<Rightarrow>
          (let starts = asn_values ''start_ip'' content;
               ends = asn_values ''end_ip'' content;
               countries = asn_values ''country_name'' content
           in if starts = [] \<or> ends = [] \<or> length starts \<noteq> length ends
              then (Inr False, log (Cerr (CouldNotParse json_path)) w1)
              else
                (case open_out list_path w1 of
                   (False, w2) \<Rightarrow> (Inr False, log (Cerr (FailedToWrite list_path)) w2)
                 | (True, w2) \<Rightarrow>
                     (case asn_loop starts ends countries country_filter list_path 0 0 w2 of
                        (Inl e, w3) \<Rightarrow> (Inl e, w3)
                      | (Inr count, w3) \<Rightarrow>
                          (Inr (count > 0), log (Cout (WroteRanges count list_path)) w3)))))"


text \<open>
  The records that the extractor accepts, by index: under a country filter the record
  has a country entry that equals the filter when both are lower-cased, and both of its
  addresses pass \<open>is_ipv4\<close>. \<open>range_lines\<close> is the text of the accepted ranges, one line
  each in document order, and \<open>range_count\<close> their number.
\<close>

definition range_accepted :: "string list \<Rightarrow> string list \<Rightarrow> string list \<Rightarrow> string \<Rightarrow> nat \<Rightarrow> bool" where
  "range_accepted starts ends countries country_filter i =
     ((country_filter = [] \<or>
        (i < length countries \<and> to_lower (countries ! i) = to_lower country_filter))
      \<and> is_ipv4 (starts ! i) = Inr True \<and> is_ipv4 (ends ! i) = Inr True)"

definition range_lines :: "string list \<Rightarrow> string list \<Rightarrow> string list \<Rightarrow> string \<Rightarrow> string" where
  "range_lines starts ends countries country_filter =
     concat (map (\<lambda>i. starts ! i @ ''-'' @ ends ! i @ [CHR 0x0A])
       (filter (range_accepted starts ends countries country_filter) [0..<length starts]))"

definition range_count :: "string list \<Rightarrow> string list \<Rightarrow> string list \<Rightarrow> string \<Rightarrow> nat" where
  "range_count starts ends countries country_filter =
     length (filter (range_accepted starts ends countries country_filter) [0..<length starts])"

section \<open>Scan result splitter\<close>





section \<open>Title extractor\<close>

text \<open>The loop of \<open>parse_zgrab_titles\<close>; \<open>out\<close> is the path of the open output stream.\<close>

fun zgrab_loop :: "string list \<Rightarrow> path \<Rightarrow> world \<Rightarrow> world" where
  "zgrab_loop [] out w = w"
| "zgrab_loop (line # lines) out w =
     (let ip = extract_json_string_value line (quoted ''ip'');
          body = extract_json_string_value line (quoted ''body'')
      in case ip of
           None \<Rightarrow> zgrab_loop lines out w
         | Some ip_value \<Rightarrow>
             (case body of
                None \<Rightarrow>
                  zgrab_loop lines out
                    (write_out out (''IP: '' @ ip_value @ '' - No response body found'' @ [CHR 0x0A]) w)
              | Some body_value \<Rightarrow>
                  (let title = extract_title body_value
                   in zgrab_loop lines out
                        (write_out out (''IP: '' @ ip_value @ '' - Title: '' @ title @ [CHR 0x0A]) w))))"

definition parse_zgrab_titles :: "path \<Rightarrow> path \<Rightarrow> world \<Rightarrow> bool \<times> world" where
  "parse_zgrab_titles zgrab_file out w =
     (case open_in zgrab_file w of
        (None, w1) \<Rightarrow> (False, log (Cerr (FailedToRead zgrab_file)) w1)
      | (Some Directory, w1) \<Rightarrow> (True, w1)
      | (Some (Contents content), w1) \<Rightarrow>
          (True, zgrab_loop (getlines (CHR 0x0A) content) out w1))"

text \<open>
  What one line of grabber output contributes to the report: nothing without an \<open>ip\<close>
  field, else one line of text that ends in a newline.
\<close>

definition report_line :: "string \<Rightarrow> string" where
  "report_line line =
     (case extract_json_string_value line (quoted ''ip'') of
        None \<Rightarrow> []
      | Some ip \<Rightarrow>
          (case extract_json_string_value line (quoted ''body'') of
             None \<Rightarrow> ''IP: '' @ ip @ '' - No response body found'' @ [CHR 0x0A]
           | Some body \<Rightarrow> ''IP: '' @ ip @ '' - Title: '' @ extract_title body @ [CHR 0x0A]))"

text \<open>
  The record that a line with an \<open>ip\<close> field contributes, without the newline that ends
  it.
\<close>

definition title_record :: "string \<Rightarrow> string" where
  "title_record line =
     (case extract_json_string_value line (quoted ''ip'') of
        None \<Rightarrow> []
      | Some ip \<Rightarrow>
          (case extract_json_string_value line (quoted ''body'') of
             None \<Rightarrow> ''IP: '' @ ip @ '' - No response body found''
           | Some body \<Rightarrow> ''IP: '' @ ip @ '' - Title: '' @ extract_title body))"

section \<open>Paths and the file system\<close>











section \<open>Tool acquisition\<close>






section \<open>Command line and main\<close>













section \<open>Example inputs\<close>

text \<open>Three lines of grabber output: a page with a title, a host without a body, and a
  line that reports no host.\<close>

definition grab_line_title :: string where
  "grab_line_title =
     ''{'' @ quoted ''ip'' @ '':'' @ quoted ''1.1.1.1'' @ '','' @ quoted ''body'' @ '': ''
       @ quoted ''<html><Title>Hi</Title></html>'' @ ''}''"

definition grab_line_no_body :: string where
  "grab_line_no_body =
     ''{'' @ quoted ''ip'' @ '':'' @ quoted ''2.2.2.2'' @ '','' @ quoted ''error'' @ '':''
       @ quoted ''timeout'' @ ''}''"

definition grab_line_no_ip :: string where
  "grab_line_no_ip = ''{'' @ quoted ''status'' @ '':'' @ quoted ''done'' @ ''}''"

definition grab_world :: world where
  "grab_world =
     \<lparr>files = [''zgrab_results_80.json'' \<mapsto>
                 grab_line_title @ [CHR 0x0A] @ grab_line_no_ip @ [CHR 0x0A]
                   @ grab_line_no_body @ [CHR 0x0A],
               ''opendomains'' \<mapsto> []],
      dirs = {}, unreadable = {}, unwritable = {}, trace = []\<rparr>"

text \<open>
  One line of grabber output whose page title holds an escaped newline, and a state in
  which it is all of the grabber's output.
\<close>

definition grab_line_forged :: string where
  "grab_line_forged =
     ''{'' @ quoted ''ip'' @ '':'' @ quoted ''1.1.1.1'' @ '','' @ quoted ''body'' @ '':''
       @ quoted (''<title>x'' @ [CHR 0x5C, CHR ''n''] @ ''IP: 8.8.8.8 - Title: forged</title>'')
       @ ''}''"

definition forged_world :: world where
  "forged_world =
     \<lparr>files = [''zgrab_results_80.json'' \<mapsto> grab_line_forged @ [CHR 0x0A],
               ''opendomains'' \<mapsto> []],
      dirs = {}, unreadable = {}, unwritable = {}, trace = []\<rparr>"



text \<open>
  An ASN table of three records, of which the second is Norway's, in a state whose list
  file has content from an earlier run; and a table whose second record lacks its
  \<open>end_ip\<close>.
\<close>

definition asn_record :: "string \<Rightarrow> string \<Rightarrow> string \<Rightarrow> string" where
  "asn_record start_ip end_ip country_name =
     ''{'' @ quoted ''start_ip'' @ '': '' @ quoted start_ip @ '', ''
       @ quoted ''end_ip'' @ '': '' @ quoted end_ip @ '', ''
       @ quoted ''country_name'' @ '': '' @ quoted country_name @ ''}''"

definition asn_example :: string where
  "asn_example =
     ''['' @ asn_record ''1.0.0.0'' ''1.0.0.255'' ''Australia'' @ '',''
       @ asn_record ''2.0.0.0'' ''2.0.0.255'' ''Norway'' @ '',''
       @ asn_record ''3.0.0.0'' ''3.0.0.255'' ''China'' @ '']''"

definition asn_malformed :: string where
  "asn_malformed =
     ''['' @ asn_record ''1.0.0.0'' ''1.0.0.255'' ''Australia'' @ '',''
       @ ''{'' @ quoted ''start_ip'' @ '': '' @ quoted ''2.0.0.0'' @ ''}]''"

definition asn_world :: world where
  "asn_world =
     \<lparr>files = [''country_asn.json'' \<mapsto> asn_example, ''bad.json'' \<mapsto> asn_malformed,
               ''list'' \<mapsto> ''10.0.0.1'' @ [CHR 0x0A]],
      dirs = {}, unreadable = {}, unwritable = {}, trace = []\<rparr>"

text \<open>A state in which \<open>ranges.json\<close> is a directory.\<close>

definition asn_dir_world :: world where
  "asn_dir_world =
     \<lparr>files = Map.empty, dirs = {''ranges.json''}, unreadable = {}, unwritable = {}, trace = []\<rparr>"












section \<open>Properties of the IPv4 validator\<close>

lemma find_from_None_iff: "find_from [c] s i = None \<longleftrightarrow> c \<notin> set s"
  by (induction s arbitrary: i) auto

lemma find_chr_0: "find_chr s c 0 = None \<longleftrightarrow> c \<notin> set s"
  by (simp add: find_chr_def find_str_def find_from_None_iff)

lemma isdigit_not_space: "isdigit c \<Longrightarrow> \<not> isspace c"
  by (auto simp: isdigit_def isspace_def Let_def)

lemma isdigit_not_sign: "isdigit c \<Longrightarrow> c \<noteq> CHR ''-'' \<and> c \<noteq> CHR ''+''"
  by (auto simp: isdigit_def)

lemma digit_val_range: "isdigit c \<Longrightarrow> 0 \<le> digit_val c \<and> digit_val c \<le> 9"
  by (auto simp: isdigit_def digit_val_def Let_def)

lemma foldl_decimal_bounds:
  "list_all isdigit ds \<Longrightarrow> 0 \<le> a \<Longrightarrow>
     0 \<le> foldl (\<lambda>a c. a * 10 + digit_val c) a ds \<and>
     foldl (\<lambda>a c. a * 10 + digit_val c) a ds < (a + 1) * 10 ^ length ds"
proof (induction ds arbitrary: a)
  case Nil
  then show ?case by simp
next
  case (Cons d ds)
  from Cons.prems have d: "0 \<le> digit_val d" "digit_val d \<le> 9" and ds: "list_all isdigit ds"
    using digit_val_range by auto
  have a: "0 \<le> a * 10 + digit_val d" using d Cons.prems by simp
  from Cons.IH [OF ds a]
  have 1: "0 \<le> foldl (\<lambda>a c. a * 10 + digit_val c) (a * 10 + digit_val d) ds"
    and 2: "foldl (\<lambda>a c. a * 10 + digit_val c) (a * 10 + digit_val d) ds
              < (a * 10 + digit_val d + 1) * 10 ^ length ds" by auto
  have "(a * 10 + digit_val d + 1) * 10 ^ length ds \<le> ((a + 1) * 10) * 10 ^ length ds"
    using d by (intro mult_right_mono) auto
  with 2 have "foldl (\<lambda>a c. a * 10 + digit_val c) (a * 10 + digit_val d) ds
      < ((a + 1) * 10) * 10 ^ length ds" by linarith
  then have "foldl (\<lambda>a c. a * 10 + digit_val c) (a * 10 + digit_val d) ds
      < (a + 1) * 10 ^ length (d # ds)" by (simp add: algebra_simps)
  with 1 show ?case by simp
qed

lemma decimal_bounds:
  "list_all isdigit ds \<Longrightarrow> 0 \<le> decimal ds \<and> decimal ds < 10 ^ length ds"
  using foldl_decimal_bounds [of ds 0] by (simp add: decimal_def)

text \<open>On one to three digits \<open>std::stoi\<close> cannot throw.\<close>

lemma stoi_digits:
  assumes "part \<noteq> []" "length part \<le> 3" "list_all isdigit part"
  shows "stoi part = Inr (decimal part)"
proof -
  from assms obtain c cs where p: "part = c # cs" by (cases part) auto
  with assms have c: "isdigit c" by simp
  have 1: "dropWhile isspace part = part"
    using p c isdigit_not_space by simp
  have 2: "take 1 part \<noteq> ''-''" "take 1 part \<noteq> ''+''"
    using p c isdigit_not_sign by auto
  have 3: "takeWhile isdigit part = part"
    using assms(3) by (simp add: list_all_iff)
  have "decimal part < 10 ^ length part" "0 \<le> decimal part"
    using decimal_bounds [OF assms(3)] by auto
  moreover have "(10::int) ^ length part \<le> 10 ^ 3"
    using assms(2) by (intro power_increasing) auto
  ultimately have 4: "0 \<le> decimal part" "decimal part < 1000" by auto
  show ?thesis
    using 2 4 assms(1) by (simp add: stoi_def Let_def 1 3)
qed

lemma is_ipv4_loop_eq:
  "is_ipv4_loop iss parts =
     Inr (list_all octet (getlines (CHR ''.'') iss) \<and> parts + length (getlines (CHR ''.'') iss) = 4)"
proof (induction iss parts rule: is_ipv4_loop.induct)
  case (1 iss parts)
  show ?case
  proof (cases "getline (CHR ''.'') iss")
    case None
    then show ?thesis by (simp add: is_ipv4_loop.simps [of iss] getlines.simps [of _ iss])
  next
    case (Some pr)
    obtain part rest where pr: "pr = (part, rest)" by (cases pr)
    show ?thesis
    proof (cases "part \<noteq> [] \<and> length part \<le> 3 \<and> list_all isdigit part")
      case False
      then have "\<not> octet part" by (auto simp: octet_def)
      with False show ?thesis using Some pr
        by (auto simp: is_ipv4_loop.simps [of iss] getlines.simps [of _ iss])
    next
      case True
      then have st: "stoi part = Inr (decimal part)" by (simp add: stoi_digits)
      show ?thesis
      proof (cases "decimal part < 0 \<or> decimal part > 255")
        case out: True
        then have "\<not> octet part" by (auto simp: octet_def)
        with True out st Some pr show ?thesis
          by (auto simp: is_ipv4_loop.simps [of iss] getlines.simps [of _ iss])
      next
        case False
        with True have oct: "octet part" by (auto simp: octet_def)
        have IH: "is_ipv4_loop rest (parts + 1) =
           Inr (list_all octet (getlines (CHR ''.'') rest) \<and>
                parts + 1 + length (getlines (CHR ''.'') rest) = 4)"
          using "1.IH" [OF Some pr [symmetric] _ _ st] True False by auto
        show ?thesis
          using True False st Some pr oct IH
          by (simp add: is_ipv4_loop.simps [of iss] getlines.simps [of _ iss])
      qed
    qed
  qed
qed

lemma is_ipv4_eq:
  "is_ipv4 s = Inr (CHR '':'' \<notin> set s \<and> length (getlines (CHR ''.'') s) = 4
                    \<and> list_all octet (getlines (CHR ''.'') s))"
  by (auto simp: is_ipv4_def find_chr_0 is_ipv4_loop_eq)

lemma getlines_part:
  assumes "delim \<notin> set a"
  shows "getlines delim (a @ delim # rest) = a # getlines delim rest"
proof -
  have tw: "takeWhile (\<lambda>x. x \<noteq> delim) (a @ delim # rest) = a"
    using assms by (induction a) auto
  have dw: "dropWhile (\<lambda>x. x \<noteq> delim) (a @ delim # rest) = delim # rest"
    using assms by (induction a) auto
  obtain x xs where x: "a @ delim # rest = x # xs" by (cases "a @ delim # rest") auto
  have "getline delim (a @ delim # rest) = Some (a, rest)"
    unfolding x getline.simps using tw dw unfolding x by simp
  then show ?thesis by (simp add: getlines.simps [of _ "a @ delim # rest"])
qed

lemma getlines_Nil: "getlines delim [] = []"
  by (simp add: getlines.simps)

lemma split_on_plain: "d \<notin> set a \<Longrightarrow> split_on d a = [a]"
  by (induction a) auto

lemma split_on_part: "d \<notin> set a \<Longrightarrow> split_on d (a @ d # rest) = a # split_on d rest"
  by (induction a) auto

lemma getlines_plain:
  assumes "s \<noteq> []" "delim \<notin> set s"
  shows "getlines delim s = [s]"
proof -
  have tw: "takeWhile (\<lambda>x. x \<noteq> delim) s = s" using assms(2) by (induction s) auto
  have dw: "dropWhile (\<lambda>x. x \<noteq> delim) s = []" using assms(2) by (induction s) auto
  obtain x xs where x: "s = x # xs" using assms(1) by (cases s) auto
  have "getline delim s = Some (s, [])"
    unfolding x getline.simps using tw dw unfolding x by simp
  then show ?thesis by (simp add: getlines.simps [of _ s] getlines_Nil)
qed

text \<open>
  The parts that the \<open>getline\<close> loop reads from a non-empty text are the segments of
  the text less one final delimiter: after a final delimiter the stream is at its end
  and the loop reads no further, empty, part.
\<close>

lemma getlines_split_on: "s \<noteq> [] \<Longrightarrow> getlines d s = split_on d (chomp d s)"
proof (induction "length s" arbitrary: s rule: less_induct)
  case less
  show ?case
  proof (cases "d \<in> set s")
    case False
    then have "last s \<noteq> d" using less.prems by (metis last_in_set)
    then have "chomp d s = s" by (simp add: chomp_def)
    with False less.prems show ?thesis by (simp add: getlines_plain split_on_plain)
  next
    case True
    then obtain a rest where s: "s = a @ d # rest" "d \<notin> set a"
      by (meson split_list_first)
    show ?thesis
    proof (cases "rest = []")
      case True
      with s have "chomp d s = a" by (simp add: chomp_def)
      with s True show ?thesis by (simp add: getlines_part getlines_Nil split_on_plain)
    next
      case False
      then have c: "chomp d s = a @ d # chomp d rest"
        using s by (simp add: chomp_def butlast_append)
      have "length rest < length s" using s by simp
      from less.hyps [OF this False] s c show ?thesis
        by (simp add: getlines_part split_on_part)
    qed
  qed
qed

lemma is_ipv4_chomp: "is_ipv4 s = Inr (dotted_quad (chomp (CHR ''.'') s))"
proof (cases "s = []")
  case True
  have "is_ipv4 [] = Inr False" by code_simp
  with True show ?thesis by (simp add: dotted_quad_def chomp_def)
next
  case False
  from False obtain ys y where ys: "s = ys @ [y]" by (cases s rule: rev_cases) auto
  have "CHR '':'' \<in> set (chomp (CHR ''.'') s) \<longleftrightarrow> CHR '':'' \<in> set s"
    unfolding ys by (simp add: chomp_def)
  then show ?thesis
    unfolding dotted_quad_def using is_ipv4_eq [of s] getlines_split_on [OF False, of "CHR ''.''"]
    by simp
qed

text \<open>
  Split at every \<open>.\<close>, the text \<open>1.2.3.4.\<close> has five segments, the last of them empty,
  so it is no dotted quad; \<open>is_ipv4\<close> accepts it.
\<close>

theorem is_ipv4_not_dotted_quad:
  "is_ipv4 ''1.2.3.4.'' = Inr True
   \<and> split_on (CHR ''.'') ''1.2.3.4.'' = [''1'', ''2'', ''3'', ''4'', []]
   \<and> \<not> dotted_quad ''1.2.3.4.''
   \<and> is_ipv4 ''1.2.3.4.'' \<noteq> Inr (dotted_quad ''1.2.3.4.'')"
proof -
  have a: "is_ipv4 ''1.2.3.4.'' = Inr True" by code_simp
  have b: "split_on (CHR ''.'') ''1.2.3.4.'' = [''1'', ''2'', ''3'', ''4'', []]" by simp
  show ?thesis using a b by (simp add: dotted_quad_def)
qed

text \<open>
  C7. For every string \<open>s\<close>, \<open>is_ipv4 s\<close> returns a value and never throws. It is true
  exactly when \<open>s\<close>, less one final \<open>.\<close> if it ends in one, is a dotted quad: it has no
  colon, and split at every \<open>.\<close> it has exactly four segments, each of them non-empty,
  of one to three decimal digits, and of a value in \<open>[0,255]\<close>. These segments are the
  parts that the \<open>getline\<close> loop reads. It accepts \<open>1.2.3.4\<close>, \<open>0.0.0.0\<close> and
  \<open>255.255.255.255\<close>, and rejects \<open>1.2.3.4.5\<close>, \<open>1.2.3\<close>, \<open>1.2.3.256\<close>, \<open>::1\<close> and
  \<open>1.2.3.a\<close>.
\<close>

theorem is_ipv4_dotted_quad:
  "is_ipv4 s = Inr (dotted_quad (chomp (CHR ''.'') s))
   \<and> is_ipv4 s = Inr (CHR '':'' \<notin> set s \<and> length (getlines (CHR ''.'') s) = 4
                    \<and> list_all octet (getlines (CHR ''.'') s))
   \<and> is_ipv4 ''1.2.3.4'' = Inr True
   \<and> is_ipv4 ''0.0.0.0'' = Inr True
   \<and> is_ipv4 ''255.255.255.255'' = Inr True
   \<and> is_ipv4 ''1.2.3.4.5'' = Inr False
   \<and> is_ipv4 ''1.2.3'' = Inr False
   \<and> is_ipv4 ''1.2.3.256'' = Inr False
   \<and> is_ipv4 ''::1'' = Inr False
   \<and> is_ipv4 ''1.2.3.a'' = Inr False"
proof -
  have "is_ipv4 ''1.2.3.4'' = Inr True" by code_simp
  moreover have "is_ipv4 ''0.0.0.0'' = Inr True" by code_simp
  moreover have "is_ipv4 ''255.255.255.255'' = Inr True" by code_simp
  moreover have "is_ipv4 ''1.2.3.4.5'' = Inr False" by code_simp
  moreover have "is_ipv4 ''1.2.3'' = Inr False" by code_simp
  moreover have "is_ipv4 ''1.2.3.256'' = Inr False" by code_simp
  moreover have "is_ipv4 ''::1'' = Inr False" by code_simp
  moreover have "is_ipv4 ''1.2.3.a'' = Inr False" by code_simp
  ultimately show ?thesis using is_ipv4_eq [of s] is_ipv4_chomp [of s] by blast
qed

lemma octet_chars: "octet a \<Longrightarrow> CHR ''.'' \<notin> set a \<and> CHR '':'' \<notin> set a"
  by (auto simp: octet_def list_all_iff isdigit_def)

text \<open>
  C9. A single trailing dot is accepted: for four segments \<open>a\<close>, \<open>b\<close>, \<open>c\<close>, \<open>d\<close>, each of
  one to three digits and of a value in \<open>[0,255]\<close>, the \<open>getline\<close> loop reads exactly
  these four parts from \<open>a.b.c.d.\<close> (no empty part after the last delimiter) and
  \<open>is_ipv4\<close> returns true. A leading dot gives an empty first part and is rejected, as
  for \<open>.1.2.3.4\<close>.
\<close>

theorem is_ipv4_trailing_dot:
  assumes "octet a" "octet b" "octet c" "octet d"
  shows "getlines (CHR ''.'') (a @ ''.'' @ b @ ''.'' @ c @ ''.'' @ d @ ''.'') = [a, b, c, d]
       \<and> is_ipv4 (a @ ''.'' @ b @ ''.'' @ c @ ''.'' @ d @ ''.'') = Inr True
       \<and> getlines (CHR ''.'') (CHR ''.'' # s) = [] # getlines (CHR ''.'') s
       \<and> is_ipv4 (CHR ''.'' # s) = Inr False
       \<and> is_ipv4 ''.1.2.3.4'' = Inr False"
proof -
  have nd: "CHR ''.'' \<notin> set a" "CHR ''.'' \<notin> set b" "CHR ''.'' \<notin> set c" "CHR ''.'' \<notin> set d"
    and nc: "CHR '':'' \<notin> set a" "CHR '':'' \<notin> set b" "CHR '':'' \<notin> set c" "CHR '':'' \<notin> set d"
    using assms octet_chars by auto
  have g: "getlines (CHR ''.'') (a @ ''.'' @ b @ ''.'' @ c @ ''.'' @ d @ ''.'') = [a, b, c, d]"
    using nd by (simp add: getlines_part getlines_Nil)
  have l: "getlines (CHR ''.'') (CHR ''.'' # s) = [] # getlines (CHR ''.'') s"
    using getlines_part [of "CHR ''.''" "[]" s] by simp
  have "\<not> octet []" by (simp add: octet_def)
  with l have r: "is_ipv4 (CHR ''.'' # s) = Inr False" for s
    by (simp add: is_ipv4_eq getlines_part [of "CHR ''.''" "[]", simplified])
  have "is_ipv4 (a @ ''.'' @ b @ ''.'' @ c @ ''.'' @ d @ ''.'') = Inr True"
    using assms nc g by (simp add: is_ipv4_eq)
  with g l r show ?thesis by simp
qed

theorem is_ipv4_trailing_dot_witness:
  "octet ''10'' \<and> octet ''0'' \<and> octet ''255'' \<and> octet ''1''
   \<and> getlines (CHR ''.'') ''10.0.255.1.'' = [''10'', ''0'', ''255'', ''1'']
   \<and> is_ipv4 ''10.0.255.1.'' = Inr True
   \<and> is_ipv4 ''.10.0.255.1'' = Inr False"
proof -
  have o: "octet ''10''" "octet ''0''" "octet ''255''" "octet ''1''"
    by (simp_all add: octet_def isdigit_def decimal_def digit_val_def)
  from is_ipv4_trailing_dot [OF o, of "''10.0.255.1''"] o show ?thesis by simp
qed

section \<open>Properties of the JSON string unescaper\<close>

lemma length_ge_4: "4 \<le> length xs \<Longrightarrow> \<exists>a b c d r. xs = a # b # c # d # r"
  by (auto simp: Suc_le_length_iff eval_nat_numeral)

lemma length_lt_4:
  "length xs < 4 \<Longrightarrow>
     xs = [] \<or> (\<exists>a. xs = [a]) \<or> (\<exists>a b. xs = [a, b]) \<or> (\<exists>a b c. xs = [a, b, c])"
  by (cases xs; simp; cases "tl xs"; simp; cases "tl (tl xs)"; simp; cases "tl (tl (tl xs))"; simp)

lemma unescape_text_u_short:
  assumes "length rest < 4"
  shows "unescape_text (CHR 0x5C # CHR ''u'' # rest) = unescape_text rest"
  using length_lt_4 [OF assms] by (elim disjE exE) simp_all

lemma unescape_step_text:
  assumes i: "i < length s" and st: "unescape_step s i = (pushed, i')"
  shows "unescape_text (drop i s) = pushed @ unescape_text (drop i' s)"
proof (cases "i + 1 < length s")
  case False
  with i have d: "drop i s = [s ! i]"
    by (metis Cons_nth_drop_Suc Suc_eq_plus1 drop_all not_less)
  from False st have "pushed = [s ! i]" "i' = i + 1"
    by (auto simp: unescape_step_def Let_def)
  with d False show ?thesis by simp
next
  case True
  define c n rest where "c = s ! i" and "n = s ! (i + 1)" and "rest = drop (i + 2) s"
  have d1: "drop (i + 1) s = n # rest"
    using True by (simp add: n_def rest_def Cons_nth_drop_Suc)
  have d: "drop i s = c # n # rest"
    using i d1 by (metis Cons_nth_drop_Suc Suc_eq_plus1 c_def)
  show ?thesis
  proof (cases "c = CHR 0x5C")
    case False
    with st have "pushed = [c]" "i' = i + 1"
      by (auto simp: unescape_step_def Let_def c_def)
    with False d d1 show ?thesis by simp
  next
    case bs: True
    show ?thesis
    proof (cases "n = CHR ''u''")
      case False
      with st bs True have "pushed = [escaped n] \<and> i' = i + 2"
        by (auto simp: unescape_step_def Let_def c_def n_def escaped_def split: if_splits)
      with False bs d show ?thesis by (simp add: rest_def)
    next
      case u: True
      show ?thesis
      proof (cases "i + 1 + 4 < length s")
        case False
        with st bs u True have p: "pushed = []" "i' = i + 2"
          by (auto simp: unescape_step_def Let_def c_def n_def)
        from False have "length rest < 4" by (simp add: rest_def)
        with p bs u d show ?thesis
          by (simp add: unescape_text_u_short rest_def del: unescape_text.simps)
      next
        case long: True
        then have "4 \<le> length rest" by (simp add: rest_def)
        then obtain h1 h2 h3 h4 r where r: "rest = h1 # h2 # h3 # h4 # r"
          using length_ge_4 by blast
        have "take 4 rest = [h1, h2, h3, h4]" using r by simp
        then have hex: "substr s (i + 2) 4 = [h1, h2, h3, h4]"
          by (simp add: substr_def rest_def)
        have r': "drop (i + 6) s = r"
        proof -
          have "drop (i + 6) s = drop 4 rest" by (simp add: rest_def add.commute)
          with r show ?thesis by simp
        qed
        from st bs u True long hex
        have "pushed = [if read_hex [h1, h2, h3, h4] \<le> 0x7F
                        then char_of (read_hex [h1, h2, h3, h4]) else CHR ''?'']"
          and "i' = i + 6"
          by (auto simp: unescape_step_def Let_def c_def n_def)
        with bs u d r r' show ?thesis by (simp add: Let_def)
      qed
    qed
  qed
qed

lemma unescape_loop_text: "unescape_loop s i out = out @ unescape_text (drop i s)"
proof (induction s i out rule: unescape_loop.induct)
  case (1 s i out)
  show ?case
  proof (cases "i < length s")
    case False
    then show ?thesis by (simp add: unescape_loop.simps [of s i])
  next
    case True
    obtain pushed i' where st: "unescape_step s i = (pushed, i')"
      by (cases "unescape_step s i")
    from "1.IH" [OF True st [symmetric]]
    have "unescape_loop s i' (out @ pushed) = (out @ pushed) @ unescape_text (drop i' s)" .
    with True st unescape_step_text [OF True st] show ?thesis
      by (simp add: unescape_loop.simps [of s i])
  qed
qed

lemma unescape_json_string_text: "unescape_json_string s = unescape_text s"
  by (simp add: unescape_json_string_def unescape_loop_text)

lemma isxdigit_plain:
  "isxdigit c \<Longrightarrow> \<not> isspace c \<and> c \<noteq> CHR ''-'' \<and> c \<noteq> CHR ''+'' \<and> c \<noteq> CHR ''x'' \<and> c \<noteq> CHR ''X''"
  by (auto simp: isxdigit_def isspace_def Let_def)

lemma read_hex_digits:
  assumes "isxdigit h1" "isxdigit h2" "isxdigit h3" "isxdigit h4"
  shows "read_hex [h1, h2, h3, h4] = hexadecimal [h1, h2, h3, h4]"
  using assms isxdigit_plain [of h1] isxdigit_plain [of h2]
  by (simp add: read_hex_def Let_def)

text \<open>
  Beyond the cases of C5: \<open>\u\<close> with fewer than four characters after it emits nothing,
  and the scan goes on after the \<open>u\<close>.
\<close>

lemma unescape_json_string_short_u:
  "length rest < 4 \<Longrightarrow>
     unescape_json_string (CHR 0x5C # CHR ''u'' # rest) = unescape_json_string rest"
  by (simp add: unescape_json_string_text unescape_text_u_short del: unescape_text.simps)

lemma char_of_tilde: "char_of (126::nat) = CHR ''~''"
  by code_simp

lemma read_hex_none:
  assumes "\<not> isxdigit xa" "\<not> isspace xa" "xa \<noteq> CHR ''+''" "xa \<noteq> CHR ''-''"
  shows "read_hex (xa # xs) = 0"
  using assms by (auto simp: read_hex_def Let_def hexadecimal_def isxdigit_def)

lemma char_of_nul: "char_of (0::nat) = CHR 0x00"
  by code_simp

text \<open>
  As the specification words it, a \<open>u\<close> that is not followed by four hexadecimal digits
  is an escaped character like any other and is emitted as it is. The code emits nothing
  for a backslash and \<open>u\<close> with fewer than four characters after them, so that
  backslash, \<open>u12\<close> decodes to \<open>12\<close> and not to \<open>u12\<close>; and with four characters after
  them it emits what the stream extraction reads from these four, whatever they are, so
  that backslash, \<open>uzzzz\<close> decodes to the character of code 0 and not to \<open>uzzzz\<close>.
\<close>

theorem unescape_json_string_not_spec:
  "unescape_json_string [CHR 0x5C, CHR ''u'', CHR ''1'', CHR ''2''] = ''12''
   \<and> unescape_spec [CHR 0x5C, CHR ''u'', CHR ''1'', CHR ''2''] = ''u12''
   \<and> unescape_json_string [CHR 0x5C, CHR ''u'', CHR ''z'', CHR ''z'', CHR ''z'', CHR ''z''] = [CHR 0x00]
   \<and> unescape_spec [CHR 0x5C, CHR ''u'', CHR ''z'', CHR ''z'', CHR ''z'', CHR ''z''] = ''uzzzz''"
proof -
  have a: "unescape_json_string [CHR 0x5C, CHR ''u'', CHR ''1'', CHR ''2''] = ''12''" by code_simp
  have b: "unescape_spec [CHR 0x5C, CHR ''u'', CHR ''1'', CHR ''2''] = ''u12''"
    by (simp add: escaped_def)
  have c: "unescape_json_string [CHR 0x5C, CHR ''u'', CHR ''z'', CHR ''z'', CHR ''z'', CHR ''z''] = [CHR 0x00]"
    by code_simp
  have d: "unescape_spec [CHR 0x5C, CHR ''u'', CHR ''z'', CHR ''z'', CHR ''z'', CHR ''z''] = ''uzzzz''"
    by (simp add: escaped_def isxdigit_def)
  from a b c d show ?thesis by blast
qed

text \<open>
  C5. \<open>unescape_json_string\<close> decodes from left to right, each step depending only on
  the text still to read. A backslash that ends the text is emitted as it is; a
  character other than a backslash is copied; a backslash before a backslash, a double
  quote or a slash emits that character; before \<open>b\<close>, \<open>f\<close>, \<open>n\<close>, \<open>r\<close>, \<open>t\<close> it emits
  the control character (codes 8, 12, 10, 13, 9). Before \<open>u\<close> and at least four more
  characters it consumes these four and emits the character of the code that the
  hexadecimal stream extraction reads from them when that code is at most \<open>0x7F\<close>, and
  \<open>?\<close> otherwise: for four hexadecimal digits the code is their value, and when the
  first of the four is no hexadecimal digit, white space or sign the code is 0. Before
  \<open>u\<close> and fewer than four more characters it emits nothing and goes on after the \<open>u\<close>.
  Before any character that is none of these it emits that character. The escaped text
  of \<open>a\<close>, backslash, \<open>nb\<close>, backslash, \<open>u0041\<close> decodes to \<open>a\<close>, newline, \<open>bA\<close>; a
  backslash before \<open>q\<close> decodes to \<open>q\<close>.
\<close>

theorem unescape_json_string_cases:
  "unescape_json_string [] = []
   \<and> unescape_json_string [CHR 0x5C] = [CHR 0x5C]
   \<and> (c \<noteq> CHR 0x5C \<longrightarrow> unescape_json_string (c # rest) = c # unescape_json_string rest)
   \<and> unescape_json_string (CHR 0x5C # CHR 0x5C # rest) = CHR 0x5C # unescape_json_string rest
   \<and> unescape_json_string (CHR 0x5C # CHR 0x22 # rest) = CHR 0x22 # unescape_json_string rest
   \<and> unescape_json_string (CHR 0x5C # CHR ''/'' # rest) = CHR ''/'' # unescape_json_string rest
   \<and> unescape_json_string (CHR 0x5C # CHR ''b'' # rest) = CHR 0x08 # unescape_json_string rest
   \<and> unescape_json_string (CHR 0x5C # CHR ''f'' # rest) = CHR 0x0C # unescape_json_string rest
   \<and> unescape_json_string (CHR 0x5C # CHR ''n'' # rest) = CHR 0x0A # unescape_json_string rest
   \<and> unescape_json_string (CHR 0x5C # CHR ''r'' # rest) = CHR 0x0D # unescape_json_string rest
   \<and> unescape_json_string (CHR 0x5C # CHR ''t'' # rest) = CHR 0x09 # unescape_json_string rest
   \<and> (isxdigit da \<and> isxdigit db \<and> isxdigit dc \<and> isxdigit dd \<longrightarrow>
        unescape_json_string (CHR 0x5C # CHR ''u'' # da # db # dc # dd # rest) =
          (if hexadecimal [da, db, dc, dd] \<le> 0x7F then char_of (hexadecimal [da, db, dc, dd])
           else CHR ''?'') # unescape_json_string rest)
   \<and> unescape_json_string (CHR 0x5C # CHR ''u'' # xa # xb # xc # xd # rest) =
        (if read_hex [xa, xb, xc, xd] \<le> 0x7F then char_of (read_hex [xa, xb, xc, xd])
         else CHR ''?'') # unescape_json_string rest
   \<and> (\<not> isxdigit xa \<and> \<not> isspace xa \<and> xa \<noteq> CHR ''+'' \<and> xa \<noteq> CHR ''-'' \<longrightarrow>
        unescape_json_string (CHR 0x5C # CHR ''u'' # xa # xb # xc # xd # rest) =
          CHR 0x00 # unescape_json_string rest)
   \<and> (length short < 4 \<longrightarrow>
        unescape_json_string (CHR 0x5C # CHR ''u'' # short) = unescape_json_string short)
   \<and> (n \<notin> {CHR 0x5C, CHR 0x22, CHR ''/'', CHR ''b'', CHR ''f'', CHR ''n'', CHR ''r'', CHR ''t'',
             CHR ''u''} \<longrightarrow>
        unescape_json_string (CHR 0x5C # n # rest) = n # unescape_json_string rest)
   \<and> unescape_json_string
        [CHR ''a'', CHR 0x5C, CHR ''n'', CHR ''b'', CHR 0x5C, CHR ''u'', CHR ''0'', CHR ''0'',
         CHR ''4'', CHR ''1''] = [CHR ''a'', CHR 0x0A, CHR ''b'', CHR ''A'']
   \<and> unescape_json_string [CHR 0x5C, CHR ''q''] = ''q''"
proof -
  have u: "isxdigit da \<and> isxdigit db \<and> isxdigit dc \<and> isxdigit dd \<longrightarrow>
        unescape_json_string (CHR 0x5C # CHR ''u'' # da # db # dc # dd # rest) =
          (if hexadecimal [da, db, dc, dd] \<le> 0x7F then char_of (hexadecimal [da, db, dc, dd])
           else CHR ''?'') # unescape_json_string rest"
    by (simp add: unescape_json_string_text read_hex_digits Let_def)
  have any: "unescape_json_string (CHR 0x5C # CHR ''u'' # xa # xb # xc # xd # rest) =
        (if read_hex [xa, xb, xc, xd] \<le> 0x7F then char_of (read_hex [xa, xb, xc, xd])
         else CHR ''?'') # unescape_json_string rest"
    by (simp add: unescape_json_string_text Let_def)
  have nul: "\<not> isxdigit xa \<and> \<not> isspace xa \<and> xa \<noteq> CHR ''+'' \<and> xa \<noteq> CHR ''-'' \<longrightarrow>
        unescape_json_string (CHR 0x5C # CHR ''u'' # xa # xb # xc # xd # rest) =
          CHR 0x00 # unescape_json_string rest"
    unfolding any by (simp add: read_hex_none char_of_nul)
  have short: "length short < 4 \<longrightarrow>
        unescape_json_string (CHR 0x5C # CHR ''u'' # short) = unescape_json_string short"
    by (simp add: unescape_json_string_short_u)
  have ex1: "unescape_json_string
        [CHR ''a'', CHR 0x5C, CHR ''n'', CHR ''b'', CHR 0x5C, CHR ''u'', CHR ''0'', CHR ''0'',
         CHR ''4'', CHR ''1''] = [CHR ''a'', CHR 0x0A, CHR ''b'', CHR ''A'']"
    by code_simp
  have ex2: "unescape_json_string [CHR 0x5C, CHR ''q''] = ''q''"
    by (simp add: unescape_json_string_text escaped_def)
  have other: "n \<notin> {CHR 0x5C, CHR 0x22, CHR ''/'', CHR ''b'', CHR ''f'', CHR ''n'', CHR ''r'', CHR ''t'',
             CHR ''u''} \<longrightarrow>
        unescape_json_string (CHR 0x5C # n # rest) = n # unescape_json_string rest"
    by (simp add: unescape_json_string_text escaped_def)
  have plain: "c \<noteq> CHR 0x5C \<longrightarrow>
        unescape_json_string (c # rest) = c # unescape_json_string rest"
    by (cases rest) (simp_all add: unescape_json_string_text)
  show ?thesis
    by (intro conjI u any nul short ex1 ex2 other plain)
      (simp_all add: unescape_json_string_text escaped_def)
qed

theorem unescape_json_string_cases_witness:
  "CHR ''a'' \<noteq> CHR 0x5C
   \<and> unescape_json_string ''ab'' = CHR ''a'' # unescape_json_string ''b''
   \<and> isxdigit (CHR ''0'') \<and> isxdigit (CHR ''7'') \<and> isxdigit (CHR ''e'')
   \<and> unescape_json_string [CHR 0x5C, CHR ''u'', CHR ''0'', CHR ''0'', CHR ''7'', CHR ''e'', CHR ''b'']
        = CHR ''~'' # unescape_json_string ''b''
   \<and> \<not> isxdigit (CHR ''z'') \<and> \<not> isspace (CHR ''z'')
   \<and> unescape_json_string [CHR 0x5C, CHR ''u'', CHR ''z'', CHR ''0'', CHR ''4'', CHR ''1'', CHR ''b'']
        = CHR 0x00 # unescape_json_string ''b''
   \<and> length ''12'' < 4
   \<and> unescape_json_string [CHR 0x5C, CHR ''u'', CHR ''1'', CHR ''2''] = unescape_json_string ''12''
   \<and> CHR ''q'' \<notin> {CHR 0x5C, CHR 0x22, CHR ''/'', CHR ''b'', CHR ''f'', CHR ''n'', CHR ''r'',
                   CHR ''t'', CHR ''u''}
   \<and> unescape_json_string [CHR 0x5C, CHR ''q'', CHR ''b''] = CHR ''q'' # unescape_json_string ''b''"
  using unescape_json_string_cases [where c = "CHR ''a''" and rest = "''b''" and da = "CHR ''0''"
      and db = "CHR ''0''" and dc = "CHR ''7''" and dd = "CHR ''e''" and n = "CHR ''q''"
      and xa = "CHR ''z''" and xb = "CHR ''0''" and xc = "CHR ''4''" and xd = "CHR ''1''"
      and short = "''12''"]
  by (simp add: isxdigit_def isspace_def hexadecimal_def xdigit_val_def char_of_tilde
      read_hex_none char_of_nul)

section \<open>Properties of title extraction\<close>

lemma find_from_Some_iff:
  "find_from needle s k = Some i \<longleftrightarrow>
     (\<exists>m. i = k + m \<and> m \<le> length s \<and> prefix needle (drop m s)
          \<and> (\<forall>j<m. \<not> prefix needle (drop j s)))"
proof (induction s arbitrary: k)
  case Nil
  then show ?case by auto
next
  case (Cons c cs)
  show ?case
  proof (cases "prefix needle (c # cs)")
    case True
    have "(\<exists>m. i = k + m \<and> m \<le> length (c # cs) \<and> prefix needle (drop m (c # cs))
          \<and> (\<forall>j<m. \<not> prefix needle (drop j (c # cs)))) \<longleftrightarrow> i = k"
    proof
      assume "\<exists>m. i = k + m \<and> m \<le> length (c # cs) \<and> prefix needle (drop m (c # cs))
          \<and> (\<forall>j<m. \<not> prefix needle (drop j (c # cs)))"
      then obtain m where m: "i = k + m" "\<forall>j<m. \<not> prefix needle (drop j (c # cs))" by blast
      have "m = 0"
      proof (rule ccontr)
        assume "m \<noteq> 0"
        then have "0 < m" by simp
        with m(2) have "\<not> prefix needle (drop 0 (c # cs))" by blast
        with True show False by simp
      qed
      with m show "i = k" by simp
    next
      assume "i = k"
      with True show "\<exists>m. i = k + m \<and> m \<le> length (c # cs) \<and> prefix needle (drop m (c # cs))
          \<and> (\<forall>j<m. \<not> prefix needle (drop j (c # cs)))"
        by (intro exI [of _ 0]) simp
    qed
    with True show ?thesis by auto
  next
    case False
    have "(\<exists>m. i = k + m \<and> m \<le> length (c # cs) \<and> prefix needle (drop m (c # cs))
          \<and> (\<forall>j<m. \<not> prefix needle (drop j (c # cs))))
      \<longleftrightarrow> (\<exists>m. i = Suc k + m \<and> m \<le> length cs \<and> prefix needle (drop m cs)
          \<and> (\<forall>j<m. \<not> prefix needle (drop j cs)))" (is "?L \<longleftrightarrow> ?R")
    proof
      assume ?L
      then obtain m where m: "i = k + m" "m \<le> length (c # cs)" "prefix needle (drop m (c # cs))"
        "\<forall>j<m. \<not> prefix needle (drop j (c # cs))" by blast
      from m(3) False have "m \<noteq> 0" by (cases m) auto
      then obtain m' where m': "m = Suc m'" by (cases m) auto
      have "\<forall>j<m'. \<not> prefix needle (drop j cs)"
      proof (intro allI impI)
        fix j assume "j < m'"
        then have "Suc j < m" using m' by simp
        with m(4) have "\<not> prefix needle (drop (Suc j) (c # cs))" by blast
        then show "\<not> prefix needle (drop j cs)" by simp
      qed
      with m m' show ?R by (intro exI [of _ m']) simp
    next
      assume ?R
      then obtain m where m: "i = Suc k + m" "m \<le> length cs" "prefix needle (drop m cs)"
        "\<forall>j<m. \<not> prefix needle (drop j cs)" by blast
      have "\<forall>j<Suc m. \<not> prefix needle (drop j (c # cs))"
      proof (intro allI impI)
        fix j assume j: "j < Suc m"
        show "\<not> prefix needle (drop j (c # cs))"
        proof (cases j)
          case 0
          with False show ?thesis by simp
        next
          case (Suc j')
          with j m(4) show ?thesis by simp
        qed
      qed
      with m show ?L by (intro exI [of _ "Suc m"]) simp
    qed
    with False Cons.IH [of "Suc k"] show ?thesis by simp
  qed
qed

lemma find_from_None_iff':
  "find_from needle s k = None \<longleftrightarrow> (\<forall>m \<le> length s. \<not> prefix needle (drop m s))"
proof (induction s arbitrary: k)
  case Nil
  then show ?case by auto
next
  case (Cons c cs)
  have "(\<forall>m \<le> length (c # cs). \<not> prefix needle (drop m (c # cs))) \<longleftrightarrow>
        (\<not> prefix needle (c # cs) \<and> (\<forall>m \<le> length cs. \<not> prefix needle (drop m cs)))"
    (is "?L \<longleftrightarrow> ?R")
  proof
    assume l: ?L
    then have "\<not> prefix needle (drop 0 (c # cs))" by blast
    moreover have "\<forall>m \<le> length cs. \<not> prefix needle (drop m cs)"
    proof (intro allI impI)
      fix m assume "m \<le> length cs"
      then have "Suc m \<le> length (c # cs)" by simp
      with l have "\<not> prefix needle (drop (Suc m) (c # cs))" by blast
      then show "\<not> prefix needle (drop m cs)" by simp
    qed
    ultimately show ?R by simp
  next
    assume r: ?R
    show ?L
    proof (intro allI impI)
      fix m assume m: "m \<le> length (c # cs)"
      show "\<not> prefix needle (drop m (c # cs))"
      proof (cases m)
        case 0
        with r show ?thesis by simp
      next
        case (Suc m')
        with m r show ?thesis by simp
      qed
    qed
  qed
  with Cons.IH [of "Suc k"] show ?case by simp
qed

lemma find_str_Some_iff: "find_str hay needle pos = Some i \<longleftrightarrow> first_at needle hay pos i"
proof
  assume a: "find_str hay needle pos = Some i"
  then have pos: "pos \<le> length hay" and "find_from needle (drop pos hay) pos = Some i"
    by (auto simp: find_str_def split: if_splits)
  then obtain m where m: "i = pos + m" "m \<le> length (drop pos hay)"
    "prefix needle (drop m (drop pos hay))" "\<forall>j<m. \<not> prefix needle (drop j (drop pos hay))"
    unfolding find_from_Some_iff by blast
  have "\<forall>j \<in> {pos..<i}. \<not> occurs_at needle hay j"
  proof
    fix j assume "j \<in> {pos..<i}"
    then have "j - pos < m" "j = pos + (j - pos)" using m(1) by auto
    with m(4) have "\<not> prefix needle (drop (j - pos) (drop pos hay))" by blast
    with \<open>j = pos + (j - pos)\<close> show "\<not> occurs_at needle hay j"
      by (simp add: occurs_at_def add.commute)
  qed
  with m pos show "first_at needle hay pos i"
    by (simp add: first_at_def occurs_at_def add.commute)
next
  assume f: "first_at needle hay pos i"
  then have 1: "pos \<le> i" "i \<le> length hay" "prefix needle (drop i hay)"
    and 2: "\<forall>j \<in> {pos..<i}. \<not> occurs_at needle hay j"
    by (auto simp: first_at_def occurs_at_def)
  have "\<forall>j<i - pos. \<not> prefix needle (drop j (drop pos hay))"
  proof (intro allI impI)
    fix j assume j: "j < i - pos"
    then have "pos + j \<in> {pos..<i}" by auto
    with 2 have "\<not> occurs_at needle hay (pos + j)" by blast
    moreover have "pos + j \<le> length hay" using j 1 by simp
    ultimately show "\<not> prefix needle (drop j (drop pos hay))"
      by (simp add: occurs_at_def add.commute)
  qed
  with 1 have "\<exists>m. i = pos + m \<and> m \<le> length (drop pos hay) \<and> prefix needle (drop m (drop pos hay))
          \<and> (\<forall>j<m. \<not> prefix needle (drop j (drop pos hay)))"
    by (intro exI [of _ "i - pos"]) (simp add: add.commute)
  then have "find_from needle (drop pos hay) pos = Some i"
    unfolding find_from_Some_iff .
  with 1 show "find_str hay needle pos = Some i" by (simp add: find_str_def)
qed

lemma find_str_None_iff:
  "find_str hay needle pos = None \<longleftrightarrow> (\<forall>j \<ge> pos. \<not> occurs_at needle hay j)"
proof
  assume a: "find_str hay needle pos = None"
  show "\<forall>j \<ge> pos. \<not> occurs_at needle hay j"
  proof (intro allI impI)
    fix j assume j: "pos \<le> j"
    show "\<not> occurs_at needle hay j"
    proof (cases "j \<le> length hay")
      case False
      then show ?thesis by (simp add: occurs_at_def)
    next
      case True
      with j a have "find_from needle (drop pos hay) pos = None"
        by (simp add: find_str_def)
      then have "\<forall>m \<le> length (drop pos hay). \<not> prefix needle (drop m (drop pos hay))"
        unfolding find_from_None_iff' .
      moreover have "j - pos \<le> length (drop pos hay)" using True j by simp
      ultimately have "\<not> prefix needle (drop (j - pos) (drop pos hay))" by blast
      with j show ?thesis by (simp add: occurs_at_def)
    qed
  qed
next
  assume a: "\<forall>j \<ge> pos. \<not> occurs_at needle hay j"
  show "find_str hay needle pos = None"
  proof (cases "pos > length hay")
    case True
    then show ?thesis by (simp add: find_str_def)
  next
    case False
    have "\<forall>m \<le> length (drop pos hay). \<not> prefix needle (drop m (drop pos hay))"
    proof (intro allI impI)
      fix m assume "m \<le> length (drop pos hay)"
      then have "pos + m \<le> length hay" using False by simp
      moreover from a have "\<not> occurs_at needle hay (pos + m)" by simp
      ultimately show "\<not> prefix needle (drop m (drop pos hay))"
        by (simp add: occurs_at_def add.commute)
    qed
    then have "find_from needle (drop pos hay) pos = None"
      unfolding find_from_None_iff' .
    with False show ?thesis by (simp add: find_str_def)
  qed
qed

lemma trim_start_eq:
  "start \<le> length s \<Longrightarrow> trim_start s start = start + length (takeWhile isspace (drop start s))"
proof (induction s start rule: trim_start.induct)
  case (1 s start)
  show ?case
  proof (cases "start < length s \<and> isspace (s ! start)")
    case True
    then have d: "drop start s = s ! start # drop (Suc start) s"
      by (simp add: Cons_nth_drop_Suc)
    from True "1.IH" have "trim_start s (Suc start) =
        Suc start + length (takeWhile isspace (drop (Suc start) s))" by simp
    with True d show ?thesis by (simp add: trim_start.simps [of s start])
  next
    case False
    show ?thesis
    proof (cases "start < length s")
      case True
      with False have "\<not> isspace (s ! start)" by simp
      moreover have "drop start s = s ! start # drop (Suc start) s"
        using True by (simp add: Cons_nth_drop_Suc)
      ultimately show ?thesis using False by (simp add: trim_start.simps [of s start])
    next
      case False
      with "1.prems" show ?thesis by (subst trim_start.simps) simp
    qed
  qed
qed

lemma trim_end_eq:
  "start \<le> e \<Longrightarrow> e \<le> length s \<Longrightarrow>
     trim_end s start e =
       start + length (dropWhile isspace (rev (take (e - start) (drop start s))))"
proof (induction s start e rule: trim_end.induct)
  case (1 s start e)
  show ?case
  proof (cases "e > start")
    case False
    with "1.prems" show ?thesis by (subst trim_end.simps) simp
  next
    case True
    define t where "t = take (e - 1 - start) (drop start s)"
    have seg: "take (e - start) (drop start s) = t @ [s ! (e - 1)]"
    proof -
      have "e - start = Suc (e - 1 - start)" using True by simp
      moreover have "e - 1 - start < length (drop start s)" using True "1.prems" by simp
      moreover have "drop start s ! (e - 1 - start) = s ! (e - 1)"
        using True "1.prems" by simp
      ultimately show ?thesis by (simp add: t_def take_Suc_conv_app_nth)
    qed
    have lt: "length t = e - 1 - start" using True "1.prems" by (simp add: t_def)
    show ?thesis
    proof (cases "isspace (s ! (e - 1))")
      case sp: True
      from True sp "1.IH" "1.prems" have "trim_end s start (e - 1) =
          start + length (dropWhile isspace (rev t))" by (simp add: t_def)
      with True sp seg show ?thesis by (simp add: trim_end.simps [of s start e])
    next
      case False
      with True seg lt show ?thesis by (simp add: trim_end.simps [of s start e])
    qed
  qed
qed

lemma rev_dropWhile_rev_prefix:
  "take (length (dropWhile P (rev u))) u = rev (dropWhile P (rev u))"
proof -
  have "u = rev (dropWhile P (rev u)) @ rev (takeWhile P (rev u))"
    by (metis rev_append rev_rev_ident takeWhile_dropWhile_id)
  then have "take (length (rev (dropWhile P (rev u)))) u = rev (dropWhile P (rev u))"
    by (metis append_eq_conv_conj)
  then show ?thesis by simp
qed

lemma trim_eq: "trim s = rev (dropWhile isspace (rev (dropWhile isspace s)))"
proof -
  define start where "start = trim_start s 0"
  have st: "start = length (takeWhile isspace s)"
    by (simp add: start_def trim_start_eq)
  then have le: "start \<le> length s" by (simp add: length_takeWhile_le)
  have d: "drop start s = dropWhile isspace s"
    unfolding st by (rule dropWhile_eq_drop [symmetric])
  have "take (length s - start) (drop start s) = drop start s" by simp
  moreover have "trim_end s start (length s) =
      start + length (dropWhile isspace (rev (take (length s - start) (drop start s))))"
    using le by (rule trim_end_eq) simp
  ultimately have "trim_end s start (length s) - start =
      length (dropWhile isspace (rev (dropWhile isspace s)))"
    by (simp add: d)
  then show ?thesis
    by (simp add: trim_def Let_def start_def [symmetric] substr_def d rev_dropWhile_rev_prefix)
qed

lemma to_lower_length: "length (to_lower s) = length s"
  by (simp add: to_lower_def)

lemma gt_before_close:
  assumes "occurs_at ''>'' lower gt" and "first_at ''</title>'' lower gt end'"
  shows "gt < end'"
proof -
  from assms(2) have le: "gt \<le> end'" and oc: "occurs_at ''</title>'' lower end'"
    by (auto simp: first_at_def)
  have "end' \<noteq> gt"
  proof
    assume "end' = gt"
    with oc assms(1) have "prefix ''>'' (drop gt lower)" "prefix ''</title>'' (drop gt lower)"
      by (auto simp: occurs_at_def)
    then show False by (cases "drop gt lower") auto
  qed
  with le show ?thesis by simp
qed

lemma extract_title_no_open:
  assumes "\<forall>i. \<not> occurs_at ''<title'' (to_lower html) i"
  shows "extract_title html = ''No title found''"
proof -
  from assms have "find_str (to_lower html) ''<title'' 0 = None"
    by (simp add: find_str_None_iff)
  then show ?thesis by (simp add: extract_title_def)
qed

lemma extract_title_no_gt:
  assumes "first_at ''<title'' (to_lower html) 0 start"
    and "\<forall>j\<ge>start. \<not> occurs_at ''>'' (to_lower html) j"
  shows "extract_title html = ''No title found''"
proof -
  from assms(1) have "find_str (to_lower html) ''<title'' 0 = Some start"
    by (simp only: find_str_Some_iff)
  moreover from assms(2) have "find_chr (to_lower html) (CHR ''>'') start = None"
    by (simp only: find_chr_def find_str_None_iff)
  ultimately show ?thesis by (simp add: extract_title_def)
qed

lemma extract_title_no_close:
  assumes "first_at ''<title'' (to_lower html) 0 start"
    and "first_at ''>'' (to_lower html) start gt"
    and "\<forall>j\<ge>gt. \<not> occurs_at ''</title>'' (to_lower html) j"
  shows "extract_title html = ''No title found''"
proof -
  from assms(1) have "find_str (to_lower html) ''<title'' 0 = Some start"
    by (simp only: find_str_Some_iff)
  moreover from assms(2) have "find_chr (to_lower html) (CHR ''>'') start = Some gt"
    by (simp only: find_chr_def find_str_Some_iff)
  moreover from assms(3) have "find_str (to_lower html) ''</title>'' gt = None"
    by (simp only: find_str_None_iff)
  ultimately show ?thesis by (simp add: extract_title_def)
qed

lemma extract_title_found:
  assumes "first_at ''<title'' (to_lower html) 0 start"
    and "first_at ''>'' (to_lower html) start gt"
    and "first_at ''</title>'' (to_lower html) gt end'"
  shows "gt < end' \<and>
     extract_title html =
       (let title = rev (dropWhile isspace (rev (dropWhile isspace
                      (substr html (gt + 1) (end' - gt - 1)))))
        in if title = [] then ''No title found'' else title)"
proof -
  from assms(2) have "occurs_at ''>'' (to_lower html) gt" by (simp add: first_at_def)
  then have lt: "gt < end'" using assms(3) by (rule gt_before_close)
  from assms(1) have "find_str (to_lower html) ''<title'' 0 = Some start"
    by (simp only: find_str_Some_iff)
  moreover from assms(2) have "find_chr (to_lower html) (CHR ''>'') start = Some gt"
    by (simp only: find_chr_def find_str_Some_iff)
  moreover from assms(3) have "find_str (to_lower html) ''</title>'' gt = Some end'"
    by (simp only: find_str_Some_iff)
  ultimately show ?thesis using lt by (simp add: extract_title_def Let_def trim_eq)
qed

text \<open>
  C3. With \<open>lower\<close> the lower-cased body: \<open>extract_title\<close> returns \<open>No title found\<close> when
  \<open><title\<close> occurs nowhere in \<open>lower\<close>; when no \<open>>\<close> occurs from its first occurrence
  on; when no \<open></title>\<close> occurs from that \<open>>\<close> on; and when the text between the \<open>>\<close>
  and the closing tag is empty or all white space (the closing tag is never at or
  before the \<open>>\<close>). Otherwise it returns that text, taken from the body itself and so
  in its original case, without its leading and trailing white space. The body
  \<open><HTML><Title> Hello </Title></html>\<close> gives \<open>Hello\<close>.
\<close>

theorem extract_title_spec:
  "((\<forall>i. \<not> occurs_at ''<title'' (to_lower html) i) \<longrightarrow>
      extract_title html = ''No title found'')
   \<and> (first_at ''<title'' (to_lower html) 0 start
        \<and> (\<forall>j\<ge>start. \<not> occurs_at ''>'' (to_lower html) j) \<longrightarrow>
      extract_title html = ''No title found'')
   \<and> (first_at ''<title'' (to_lower html) 0 start
        \<and> first_at ''>'' (to_lower html) start gt
        \<and> (\<forall>j\<ge>gt. \<not> occurs_at ''</title>'' (to_lower html) j) \<longrightarrow>
      extract_title html = ''No title found'')
   \<and> (first_at ''<title'' (to_lower html) 0 start
        \<and> first_at ''>'' (to_lower html) start gt
        \<and> first_at ''</title>'' (to_lower html) gt end' \<longrightarrow>
      gt < end'
      \<and> extract_title html =
          (let title = rev (dropWhile isspace (rev (dropWhile isspace
                         (substr html (gt + 1) (end' - gt - 1)))))
           in if title = [] then ''No title found'' else title)
      \<and> (end' \<le> gt + 1 \<longrightarrow> extract_title html = ''No title found''))
   \<and> extract_title ''<HTML><Title> Hello </Title></html>'' = ''Hello''"
proof -
  have ex: "extract_title ''<HTML><Title> Hello </Title></html>'' = ''Hello''"
    by code_simp
  have found: "first_at ''<title'' (to_lower html) 0 start
        \<and> first_at ''>'' (to_lower html) start gt
        \<and> first_at ''</title>'' (to_lower html) gt end' \<longrightarrow>
      gt < end'
      \<and> extract_title html =
          (let title = rev (dropWhile isspace (rev (dropWhile isspace
                         (substr html (gt + 1) (end' - gt - 1)))))
           in if title = [] then ''No title found'' else title)
      \<and> (end' \<le> gt + 1 \<longrightarrow> extract_title html = ''No title found'')"
  proof (intro impI, elim conjE)
    assume a: "first_at ''<title'' (to_lower html) 0 start"
      "first_at ''>'' (to_lower html) start gt"
      "first_at ''</title>'' (to_lower html) gt end'"
    note f = extract_title_found [OF a]
    moreover have "extract_title html = ''No title found''" if "end' \<le> gt + 1"
    proof -
      from that f have "end' - gt - 1 = 0" by simp
      with f show ?thesis by (simp add: substr_def)
    qed
    ultimately show "gt < end'
      \<and> extract_title html =
          (let title = rev (dropWhile isspace (rev (dropWhile isspace
                         (substr html (gt + 1) (end' - gt - 1)))))
           in if title = [] then ''No title found'' else title)
      \<and> (end' \<le> gt + 1 \<longrightarrow> extract_title html = ''No title found'')"
      by blast
  qed
  show ?thesis
    using ex found extract_title_no_open [of html] extract_title_no_gt [of html start]
      extract_title_no_close [of html start gt]
    by blast
qed

theorem extract_title_spec_witness:
  "(\<forall>i. \<not> occurs_at ''<title'' (to_lower ''<p>hi</p>'') i)
   \<and> extract_title ''<p>hi</p>'' = ''No title found''
   \<and> first_at ''<title'' (to_lower ''<Title lang'') 0 0
   \<and> \<not> (\<exists>j\<ge>0. occurs_at ''>'' (to_lower ''<Title lang'') j)
   \<and> extract_title ''<Title lang'' = ''No title found''
   \<and> first_at ''>'' (to_lower ''<TITLE>x'') 0 6
   \<and> \<not> (\<exists>j\<ge>6. occurs_at ''</title>'' (to_lower ''<TITLE>x'') j)
   \<and> extract_title ''<TITLE>x'' = ''No title found''
   \<and> first_at ''<title'' (to_lower ''<HTML><Title> Hello </Title></html>'') 0 6
   \<and> first_at ''>'' (to_lower ''<HTML><Title> Hello </Title></html>'') 6 12
   \<and> first_at ''</title>'' (to_lower ''<HTML><Title> Hello </Title></html>'') 12 20
   \<and> extract_title ''<HTML><Title> Hello </Title></html>'' = ''Hello''
   \<and> first_at ''</title>'' (to_lower ''<title></title>'') 6 7
   \<and> extract_title ''<title></title>'' = ''No title found''"
proof -
  have n1: "\<forall>i. \<not> occurs_at ''<title'' (to_lower ''<p>hi</p>'') i"
  proof -
    have "find_str (to_lower ''<p>hi</p>'') ''<title'' 0 = None" by code_simp
    then show ?thesis by (simp add: find_str_None_iff)
  qed
  have a2: "first_at ''<title'' (to_lower ''<Title lang'') 0 0"
  proof -
    have "find_str (to_lower ''<Title lang'') ''<title'' 0 = Some 0" by code_simp
    then show ?thesis by (rule find_str_Some_iff [THEN iffD1])
  qed
  have n2: "\<forall>j\<ge>0. \<not> occurs_at ''>'' (to_lower ''<Title lang'') j"
  proof -
    have "find_str (to_lower ''<Title lang'') ''>'' 0 = None" by code_simp
    then show ?thesis by (rule find_str_None_iff [THEN iffD1])
  qed
  have a3: "first_at ''<title'' (to_lower ''<TITLE>x'') 0 0"
  proof -
    have "find_str (to_lower ''<TITLE>x'') ''<title'' 0 = Some 0" by code_simp
    then show ?thesis by (rule find_str_Some_iff [THEN iffD1])
  qed
  have b3: "first_at ''>'' (to_lower ''<TITLE>x'') 0 6"
  proof -
    have "find_str (to_lower ''<TITLE>x'') ''>'' 0 = Some 6" by code_simp
    then show ?thesis by (rule find_str_Some_iff [THEN iffD1])
  qed
  have n3: "\<forall>j\<ge>6. \<not> occurs_at ''</title>'' (to_lower ''<TITLE>x'') j"
  proof -
    have "find_str (to_lower ''<TITLE>x'') ''</title>'' 6 = None" by code_simp
    then show ?thesis by (rule find_str_None_iff [THEN iffD1])
  qed
  have a4: "first_at ''<title'' (to_lower ''<HTML><Title> Hello </Title></html>'') 0 6"
  proof -
    have "find_str (to_lower ''<HTML><Title> Hello </Title></html>'') ''<title'' 0 = Some 6"
      by code_simp
    then show ?thesis by (rule find_str_Some_iff [THEN iffD1])
  qed
  have b4: "first_at ''>'' (to_lower ''<HTML><Title> Hello </Title></html>'') 6 12"
  proof -
    have "find_str (to_lower ''<HTML><Title> Hello </Title></html>'') ''>'' 6 = Some 12"
      by code_simp
    then show ?thesis by (rule find_str_Some_iff [THEN iffD1])
  qed
  have c4: "first_at ''</title>'' (to_lower ''<HTML><Title> Hello </Title></html>'') 12 20"
  proof -
    have "find_str (to_lower ''<HTML><Title> Hello </Title></html>'') ''</title>'' 12 = Some 20"
      by code_simp
    then show ?thesis by (rule find_str_Some_iff [THEN iffD1])
  qed
  have a5: "first_at ''<title'' (to_lower ''<title></title>'') 0 0"
  proof -
    have "find_str (to_lower ''<title></title>'') ''<title'' 0 = Some 0" by code_simp
    then show ?thesis by (rule find_str_Some_iff [THEN iffD1])
  qed
  have b5: "first_at ''>'' (to_lower ''<title></title>'') 0 6"
  proof -
    have "find_str (to_lower ''<title></title>'') ''>'' 0 = Some 6" by code_simp
    then show ?thesis by (rule find_str_Some_iff [THEN iffD1])
  qed
  have c5: "first_at ''</title>'' (to_lower ''<title></title>'') 6 7"
  proof -
    have "find_str (to_lower ''<title></title>'') ''</title>'' 6 = Some 7" by code_simp
    then show ?thesis by (rule find_str_Some_iff [THEN iffD1])
  qed
  have r1: "extract_title ''<p>hi</p>'' = ''No title found''"
    using extract_title_spec [of "''<p>hi</p>''" 0 0 0] n1 by blast
  have r2: "extract_title ''<Title lang'' = ''No title found''"
    using extract_title_spec [of "''<Title lang''" 0 0 0] a2 n2 by blast
  have r3: "extract_title ''<TITLE>x'' = ''No title found''"
    using extract_title_spec [of "''<TITLE>x''" 0 6 0] a3 b3 n3 by blast
  have r4: "extract_title ''<HTML><Title> Hello </Title></html>'' = ''Hello''"
    using extract_title_spec [of "''<HTML><Title> Hello </Title></html>''" 6 12 20] by blast
  have r5: "extract_title ''<title></title>'' = ''No title found''"
  proof -
    have "(7::nat) \<le> 6 + 1" by simp
    with extract_title_spec [of "''<title></title>''" 0 6 7] a5 b5 c5 show ?thesis by blast
  qed
  from n2 have n2': "\<not> (\<exists>j\<ge>0. occurs_at ''>'' (to_lower ''<Title lang'') j)" by blast
  from n3 have n3': "\<not> (\<exists>j\<ge>6. occurs_at ''</title>'' (to_lower ''<TITLE>x'') j)" by blast
  show ?thesis
    by (intro conjI n1 r1 a2 n2' r2 b3 n3' r3 a4 b4 c4 r4 c5 r5)
qed

section \<open>Properties of the title extractor\<close>

lemma write_out_open:
  "files w p = Some c \<Longrightarrow> write_out p t w = w\<lparr>files := (files w)(p \<mapsto> c @ t)\<rparr>"
  by (simp add: write_out_def)

lemma zgrab_loop_eq:
  "files w out = Some c \<Longrightarrow>
     zgrab_loop lines out w = w\<lparr>files := (files w)(out \<mapsto> c @ concat (map report_line lines))\<rparr>"
proof (induction lines arbitrary: w c)
  case Nil
  then have "(files w)(out \<mapsto> c) = files w" by (simp add: map_upd_triv)
  then show ?case by simp
next
  case (Cons line lines)
  show ?case
  proof (cases "extract_json_string_value line (quoted ''ip'')")
    case None
    with Cons show ?thesis by (simp add: report_line_def)
  next
    case (Some ip)
    define t where "t = report_line line"
    have step: "zgrab_loop (line # lines) out w = zgrab_loop lines out (write_out out t w)"
      using Some by (simp add: t_def report_line_def Let_def split: option.splits)
    have w': "files (write_out out t w) out = Some (c @ t)"
      using Cons.prems by (simp add: write_out_def)
    note step
    also have "zgrab_loop lines out (write_out out t w) =
        (write_out out t w)\<lparr>files := (files (write_out out t w))
            (out \<mapsto> (c @ t) @ concat (map report_line lines))\<rparr>"
      using w' by (rule Cons.IH)
    also have "\<dots> = w\<lparr>files := (files w)
            (out \<mapsto> c @ concat (map report_line (line # lines)))\<rparr>"
      using Cons.prems by (simp add: write_out_def t_def)
    finally show ?thesis .
  qed
qed

lemma parse_zgrab_titles_eq:
  assumes "zgrab_file \<notin> unreadable w" "files w zgrab_file = Some content"
    "files w out = Some written"
  shows "parse_zgrab_titles zgrab_file out w =
        (True, (log (OpenIn zgrab_file) w)
                 \<lparr>files := (files w)(out \<mapsto>
                    written @ concat (map report_line (getlines (CHR 0x0A) content)))\<rparr>)"
proof -
  have "files (log (OpenIn zgrab_file) w) out = Some written"
    using assms(3) by (simp add: log_def)
  from zgrab_loop_eq [OF this] assms show ?thesis
    by (simp add: parse_zgrab_titles_def open_in_def log_def)
qed

lemma report_line_record:
  "report_line line =
     (if extract_json_string_value line (quoted ''ip'') = None then []
      else title_record line @ [CHR 0x0A])"
  by (simp add: report_line_def title_record_def split: option.splits)

lemma report_lines_records:
  assumes "list_all (\<lambda>line. CHR 0x0A \<notin> set (title_record line)) lines"
  shows "getlines (CHR 0x0A) (concat (map report_line lines)) =
     map title_record (filter (\<lambda>line. extract_json_string_value line (quoted ''ip'') \<noteq> None) lines)"
  using assms
proof (induction lines)
  case Nil
  then show ?case by (simp add: getlines_Nil)
next
  case (Cons line lines)
  then have nl: "CHR 0x0A \<notin> set (title_record line)" and rest: "list_all (\<lambda>line. CHR 0x0A \<notin> set (title_record line)) lines"
    by simp_all
  show ?case
  proof (cases "extract_json_string_value line (quoted ''ip'') = None")
    case True
    then show ?thesis using Cons.IH [OF rest] by (simp add: report_line_record)
  next
    case False
    then have "concat (map report_line (line # lines)) =
        title_record line @ CHR 0x0A # concat (map report_line lines)"
      by (simp add: report_line_record)
    then show ?thesis using False Cons.IH [OF rest] getlines_part [OF nl] by simp
  qed
qed

text \<open>
  One record can give more than one line of the report. The title is written as it was
  decoded, and an escaped newline in the page decodes to a newline: the single line
  \<open>grab_line_forged\<close> of grabber output, which reports one host, puts two lines in the
  report, the second of them for a host that was never grabbed.
\<close>

theorem parse_zgrab_titles_two_lines:
  "getlines (CHR 0x0A) (grab_line_forged @ [CHR 0x0A]) = [grab_line_forged]
   \<and> report_line grab_line_forged =
       ''IP: 1.1.1.1 - Title: x'' @ [CHR 0x0A] @ ''IP: 8.8.8.8 - Title: forged'' @ [CHR 0x0A]
   \<and> files (snd (parse_zgrab_titles ''zgrab_results_80.json'' ''opendomains'' forged_world))
         ''opendomains''
       = Some (''IP: 1.1.1.1 - Title: x'' @ [CHR 0x0A] @ ''IP: 8.8.8.8 - Title: forged'' @ [CHR 0x0A])
   \<and> getlines (CHR 0x0A)
        (''IP: 1.1.1.1 - Title: x'' @ [CHR 0x0A] @ ''IP: 8.8.8.8 - Title: forged'' @ [CHR 0x0A])
       = [''IP: 1.1.1.1 - Title: x'', ''IP: 8.8.8.8 - Title: forged'']"
proof -
  have l: "getlines (CHR 0x0A) (grab_line_forged @ [CHR 0x0A]) = [grab_line_forged]"
    by code_simp
  have r: "report_line grab_line_forged =
       ''IP: 1.1.1.1 - Title: x'' @ [CHR 0x0A] @ ''IP: 8.8.8.8 - Title: forged'' @ [CHR 0x0A]"
    by code_simp
  have f: "''zgrab_results_80.json'' \<notin> unreadable forged_world"
    "files forged_world ''zgrab_results_80.json'' = Some (grab_line_forged @ [CHR 0x0A])"
    "files forged_world ''opendomains'' = Some []"
    by (simp_all add: forged_world_def)
  have p: "files (snd (parse_zgrab_titles ''zgrab_results_80.json'' ''opendomains'' forged_world))
         ''opendomains''
       = Some (''IP: 1.1.1.1 - Title: x'' @ [CHR 0x0A] @ ''IP: 8.8.8.8 - Title: forged'' @ [CHR 0x0A])"
    unfolding parse_zgrab_titles_eq [OF f] l using r by simp
  have g: "getlines (CHR 0x0A)
        (''IP: 1.1.1.1 - Title: x'' @ [CHR 0x0A] @ ''IP: 8.8.8.8 - Title: forged'' @ [CHR 0x0A])
       = [''IP: 1.1.1.1 - Title: x'', ''IP: 8.8.8.8 - Title: forged'']"
    by code_simp
  from l r p g show ?thesis by blast
qed

text \<open>
  C8. A line of grabber output with no extractable \<open>ip\<close> writes nothing; a line with
  an \<open>ip\<close> and no \<open>body\<close> writes \<open>IP: <ip> - No response body found\<close>; a line with both
  writes \<open>IP: <ip> - Title: <title>\<close> with the title that \<open>extract_title\<close> computes from
  the body; each of these ends in a newline. Lines are handled one after the other, so
  the report receives, after what it held before, the contributions of the lines in
  their order of arrival. When no record holds a newline, that is when no decoded \<open>ip\<close>
  or title does, the text written is one line for each line of input with an \<open>ip\<close>, in
  order.
\<close>

theorem parse_zgrab_titles_report:
  "(extract_json_string_value line (quoted ''ip'') = None \<longrightarrow> zgrab_loop [line] out w = w)
   \<and> (extract_json_string_value line (quoted ''ip'') = Some ip
        \<and> extract_json_string_value line (quoted ''body'') = None \<longrightarrow>
      zgrab_loop [line] out w =
        write_out out (''IP: '' @ ip @ '' - No response body found'' @ [CHR 0x0A]) w)
   \<and> (extract_json_string_value line (quoted ''ip'') = Some ip
        \<and> extract_json_string_value line (quoted ''body'') = Some body \<longrightarrow>
      zgrab_loop [line] out w =
        write_out out (''IP: '' @ ip @ '' - Title: '' @ extract_title body @ [CHR 0x0A]) w)
   \<and> zgrab_loop (lines @ later) out w = zgrab_loop later out (zgrab_loop lines out w)
   \<and> (zgrab_file \<notin> unreadable w \<and> files w zgrab_file = Some content
        \<and> files w out = Some written \<longrightarrow>
      parse_zgrab_titles zgrab_file out w =
        (True, (log (OpenIn zgrab_file) w)
                 \<lparr>files := (files w)(out \<mapsto>
                    written @ concat (map report_line (getlines (CHR 0x0A) content)))\<rparr>))
   \<and> (list_all (\<lambda>line. CHR 0x0A \<notin> set (title_record line)) recs \<longrightarrow>
      getlines (CHR 0x0A) (concat (map report_line recs)) =
        map title_record
          (filter (\<lambda>line. extract_json_string_value line (quoted ''ip'') \<noteq> None) recs))"
proof -
  have app: "zgrab_loop (lines @ later) out w = zgrab_loop later out (zgrab_loop lines out w)"
    by (induction lines arbitrary: w) (auto simp: Let_def split: option.splits)
  have whole: "zgrab_file \<notin> unreadable w \<and> files w zgrab_file = Some content
        \<and> files w out = Some written \<longrightarrow>
      parse_zgrab_titles zgrab_file out w =
        (True, (log (OpenIn zgrab_file) w)
                 \<lparr>files := (files w)(out \<mapsto>
                    written @ concat (map report_line (getlines (CHR 0x0A) content)))\<rparr>)"
    by (auto simp: parse_zgrab_titles_eq)
  have recs: "list_all (\<lambda>line. CHR 0x0A \<notin> set (title_record line)) recs \<longrightarrow>
      getlines (CHR 0x0A) (concat (map report_line recs)) =
        map title_record
          (filter (\<lambda>line. extract_json_string_value line (quoted ''ip'') \<noteq> None) recs)"
    by (auto simp: report_lines_records)
  show ?thesis
    by (intro conjI app whole recs) (simp_all add: Let_def)
qed

theorem parse_zgrab_titles_report_witness:
  "extract_json_string_value grab_line_no_ip (quoted ''ip'') = None
   \<and> zgrab_loop [grab_line_no_ip] ''opendomains'' grab_world = grab_world
   \<and> extract_json_string_value grab_line_no_body (quoted ''ip'') = Some ''2.2.2.2''
   \<and> extract_json_string_value grab_line_no_body (quoted ''body'') = None
   \<and> zgrab_loop [grab_line_no_body] ''opendomains'' grab_world =
       write_out ''opendomains'' (''IP: 2.2.2.2 - No response body found'' @ [CHR 0x0A]) grab_world
   \<and> extract_json_string_value grab_line_title (quoted ''ip'') = Some ''1.1.1.1''
   \<and> extract_json_string_value grab_line_title (quoted ''body'')
       = Some ''<html><Title>Hi</Title></html>''
   \<and> zgrab_loop [grab_line_title] ''opendomains'' grab_world =
       write_out ''opendomains'' (''IP: 1.1.1.1 - Title: Hi'' @ [CHR 0x0A]) grab_world
   \<and> ''zgrab_results_80.json'' \<notin> unreadable grab_world
   \<and> files grab_world ''opendomains'' = Some []
   \<and> fst (parse_zgrab_titles ''zgrab_results_80.json'' ''opendomains'' grab_world) = True
   \<and> files (snd (parse_zgrab_titles ''zgrab_results_80.json'' ''opendomains'' grab_world))
         ''opendomains''
       = Some (''IP: 1.1.1.1 - Title: Hi'' @ [CHR 0x0A]
               @ ''IP: 2.2.2.2 - No response body found'' @ [CHR 0x0A])
   \<and> list_all (\<lambda>line. CHR 0x0A \<notin> set (title_record line))
        [grab_line_title, grab_line_no_ip, grab_line_no_body]
   \<and> getlines (CHR 0x0A)
        (concat (map report_line [grab_line_title, grab_line_no_ip, grab_line_no_body]))
       = [''IP: 1.1.1.1 - Title: Hi'', ''IP: 2.2.2.2 - No response body found'']"
proof -
  let ?content = "grab_line_title @ [CHR 0x0A] @ grab_line_no_ip @ [CHR 0x0A]
                   @ grab_line_no_body @ [CHR 0x0A]"
  have i0: "extract_json_string_value grab_line_no_ip (quoted ''ip'') = None" by code_simp
  have i1: "extract_json_string_value grab_line_no_body (quoted ''ip'') = Some ''2.2.2.2''"
    by code_simp
  have b1: "extract_json_string_value grab_line_no_body (quoted ''body'') = None" by code_simp
  have i2: "extract_json_string_value grab_line_title (quoted ''ip'') = Some ''1.1.1.1''"
    by code_simp
  have b2: "extract_json_string_value grab_line_title (quoted ''body'')
       = Some ''<html><Title>Hi</Title></html>''" by code_simp
  have t2: "extract_title ''<html><Title>Hi</Title></html>'' = ''Hi''" by code_simp
  have r: "concat (map report_line (getlines (CHR 0x0A) ?content)) =
      ''IP: 1.1.1.1 - Title: Hi'' @ [CHR 0x0A]
        @ ''IP: 2.2.2.2 - No response body found'' @ [CHR 0x0A]" by code_simp
  have f: "''zgrab_results_80.json'' \<notin> unreadable grab_world"
    "files grab_world ''zgrab_results_80.json'' = Some ?content"
    "files grab_world ''opendomains'' = Some []"
    by (simp_all add: grab_world_def)
  note inst = parse_zgrab_titles_report [where w = grab_world and out = "''opendomains''"
      and zgrab_file = "''zgrab_results_80.json''" and content = ?content and written = "[]"]
  have l0: "zgrab_loop [grab_line_no_ip] ''opendomains'' grab_world = grab_world"
    using inst [where line = grab_line_no_ip] i0 by blast
  have l1: "zgrab_loop [grab_line_no_body] ''opendomains'' grab_world =
       write_out ''opendomains'' (''IP: 2.2.2.2 - No response body found'' @ [CHR 0x0A]) grab_world"
    using inst [where line = grab_line_no_body and ip = "''2.2.2.2''"] i1 b1 by simp
  have l2: "zgrab_loop [grab_line_title] ''opendomains'' grab_world =
       write_out ''opendomains'' (''IP: 1.1.1.1 - Title: Hi'' @ [CHR 0x0A]) grab_world"
    using inst [where line = grab_line_title and ip = "''1.1.1.1''"
        and body = "''<html><Title>Hi</Title></html>''"] i2 b2 t2 by simp
  have p: "parse_zgrab_titles ''zgrab_results_80.json'' ''opendomains'' grab_world =
        (True, (log (OpenIn ''zgrab_results_80.json'') grab_world)
                 \<lparr>files := (files grab_world)(''opendomains'' \<mapsto>
                    [] @ concat (map report_line (getlines (CHR 0x0A) ?content)))\<rparr>)"
    using inst f by blast
  have p1: "fst (parse_zgrab_titles ''zgrab_results_80.json'' ''opendomains'' grab_world) = True"
    by (simp add: p)
  have p2: "files (snd (parse_zgrab_titles ''zgrab_results_80.json'' ''opendomains'' grab_world))
         ''opendomains''
       = Some (''IP: 1.1.1.1 - Title: Hi'' @ [CHR 0x0A]
               @ ''IP: 2.2.2.2 - No response body found'' @ [CHR 0x0A])"
    unfolding p using r by simp
  have tr: "title_record grab_line_title = ''IP: 1.1.1.1 - Title: Hi''"
    "title_record grab_line_no_ip = []"
    "title_record grab_line_no_body = ''IP: 2.2.2.2 - No response body found''"
    by (simp_all add: title_record_def i0 i1 b1 i2 b2 t2)
  have q1: "list_all (\<lambda>line. CHR 0x0A \<notin> set (title_record line))
        [grab_line_title, grab_line_no_ip, grab_line_no_body]"
    by (simp add: tr)
  have q2: "getlines (CHR 0x0A)
        (concat (map report_line [grab_line_title, grab_line_no_ip, grab_line_no_body]))
       = [''IP: 1.1.1.1 - Title: Hi'', ''IP: 2.2.2.2 - No response body found'']"
    using inst [where recs = "[grab_line_title, grab_line_no_ip, grab_line_no_body]"] q1
    by (simp add: tr i0 i1 i2)
  show ?thesis
    by (intro conjI i0 l0 i1 b1 l1 i2 b2 l2 f(1) f(3) p1 p2 q1 q2)
qed

section \<open>Properties of the scan result splitter\<close>












section \<open>Properties of the ASN range extractor\<close>

lemma is_ipv4_total: "\<exists>b. is_ipv4 s = Inr b"
  by (simp add: is_ipv4_eq)

lemma asn_loop_eq:
  "asn_loop starts ends countries country_filter list_path i count
       (w\<lparr>files := f(list_path \<mapsto> a)\<rparr>) =
     (Inr (count + length (filter (range_accepted starts ends countries country_filter)
                             [i..<length starts])),
      w\<lparr>files := f(list_path \<mapsto> a @ concat (map (\<lambda>i. starts ! i @ ''-'' @ ends ! i @ [CHR 0x0A])
             (filter (range_accepted starts ends countries country_filter)
                [i..<length starts])))\<rparr>)"
proof (induction "length starts - i" arbitrary: i count a)
  case 0
  then show ?case by (subst asn_loop.simps) simp
next
  case (Suc n)
  then have lt: "i < length starts" and n: "n = length starts - (i + 1)" by simp_all
  let ?acc = "range_accepted starts ends countries country_filter"
  let ?line = "\<lambda>i. starts ! i @ ''-'' @ ends ! i @ [CHR 0x0A]"
  let ?w = "w\<lparr>files := f(list_path \<mapsto> a)\<rparr>"
  have upt: "[i..<length starts] = i # [i + 1..<length starts]"
    using lt by (simp add: upt_conv_Cons)
  obtain b1 b2 where b: "is_ipv4 (starts ! i) = Inr b1" "is_ipv4 (ends ! i) = Inr b2"
    using is_ipv4_total by blast
  show ?case
  proof (cases "?acc i")
    case True
    then have c: "country_filter = [] \<or>
        (i < length countries \<and> to_lower (countries ! i) = to_lower country_filter)"
      and b': "b1" "b2" using b by (auto simp: range_accepted_def)
    have w': "write_out list_path (?line i) ?w = w\<lparr>files := f(list_path \<mapsto> a @ ?line i)\<rparr>"
      by (simp add: write_out_def)
    have "asn_loop starts ends countries country_filter list_path i count ?w =
        asn_loop starts ends countries country_filter list_path (i + 1) (count + 1)
          (write_out list_path (?line i) ?w)"
      using lt c b b' by (subst asn_loop.simps) auto
    also have "\<dots> = (Inr (count + 1 + length (filter ?acc [i + 1..<length starts])),
        w\<lparr>files := f(list_path \<mapsto> (a @ ?line i) @ concat (map ?line
             (filter ?acc [i + 1..<length starts])))\<rparr>)"
      unfolding w' by (rule Suc.hyps(1) [OF n])
    also have "\<dots> = (Inr (count + length (filter ?acc [i..<length starts])),
        w\<lparr>files := f(list_path \<mapsto> a @ concat (map ?line (filter ?acc [i..<length starts])))\<rparr>)"
      unfolding upt using True by simp
    finally show ?thesis .
  next
    case False
    have "asn_loop starts ends countries country_filter list_path i count ?w =
        asn_loop starts ends countries country_filter list_path (i + 1) count ?w"
      using lt False b by (subst asn_loop.simps) (auto simp: range_accepted_def)
    also have "\<dots> = (Inr (count + length (filter ?acc [i + 1..<length starts])),
        w\<lparr>files := f(list_path \<mapsto> a @ concat (map ?line
             (filter ?acc [i + 1..<length starts])))\<rparr>)"
      by (rule Suc.hyps(1) [OF n])
    also have "\<dots> = (Inr (count + length (filter ?acc [i..<length starts])),
        w\<lparr>files := f(list_path \<mapsto> a @ concat (map ?line (filter ?acc [i..<length starts])))\<rparr>)"
      unfolding upt using False by simp
    finally show ?thesis .
  qed
qed

lemma build_list_unreadable:
  assumes "json_path \<in> unreadable w \<or> (files w json_path = None \<and> json_path \<notin> dirs w)"
  shows "build_list_from_asn_json json_path list_path country_filter w =
     (Inr False, w\<lparr>trace := trace w @ [OpenIn json_path, Cerr (FailedToOpen json_path)]\<rparr>)"
  using assms by (auto simp: build_list_from_asn_json_def open_in_def log_def)

lemma build_list_malformed:
  assumes "json_path \<notin> unreadable w" "files w json_path = Some content"
    and "asn_values ''start_ip'' content = [] \<or>
         length (asn_values ''start_ip'' content) \<noteq> length (asn_values ''end_ip'' content)"
  shows "build_list_from_asn_json json_path list_path country_filter w =
     (Inr False, w\<lparr>trace := trace w @ [OpenIn json_path, Cerr (CouldNotParse json_path)]\<rparr>)"
  using assms by (auto simp: build_list_from_asn_json_def open_in_def log_def Let_def)

lemma build_list_well_formed:
  assumes "asn_values ''start_ip'' content \<noteq> []"
    and "length (asn_values ''start_ip'' content) = length (asn_values ''end_ip'' content)"
  shows "\<not> (asn_values ''start_ip'' content = [] \<or> asn_values ''end_ip'' content = [] \<or>
            length (asn_values ''start_ip'' content) \<noteq> length (asn_values ''end_ip'' content))"
  using assms by auto

lemma build_list_unwritable:
  assumes "json_path \<notin> unreadable w" "files w json_path = Some content"
    and "asn_values ''start_ip'' content \<noteq> []"
    and "length (asn_values ''start_ip'' content) = length (asn_values ''end_ip'' content)"
    and "list_path \<in> unwritable w"
  shows "build_list_from_asn_json json_path list_path country_filter w =
     (Inr False,
      w\<lparr>trace := trace w @ [OpenIn json_path, OpenOut list_path, Cerr (FailedToWrite list_path)]\<rparr>)"
  using assms(1,2,5) build_list_well_formed [OF assms(3,4)]
  by (simp add: build_list_from_asn_json_def open_in_def open_out_def log_def Let_def)

lemma build_list_written:
  assumes "json_path \<notin> unreadable w" "files w json_path = Some content"
    and "asn_values ''start_ip'' content \<noteq> []"
    and "length (asn_values ''start_ip'' content) = length (asn_values ''end_ip'' content)"
    and "list_path \<notin> unwritable w"
  shows "build_list_from_asn_json json_path list_path country_filter w =
     (Inr (0 < range_count (asn_values ''start_ip'' content) (asn_values ''end_ip'' content)
                  (asn_values ''country_name'' content) country_filter),
      w\<lparr>files := (files w)(list_path \<mapsto>
           range_lines (asn_values ''start_ip'' content) (asn_values ''end_ip'' content)
             (asn_values ''country_name'' content) country_filter),
        trace := trace w @
          [OpenIn json_path, OpenOut list_path,
           Cout (WroteRanges
             (range_count (asn_values ''start_ip'' content) (asn_values ''end_ip'' content)
                (asn_values ''country_name'' content) country_filter) list_path)]\<rparr>)"
proof -
  let ?s = "asn_values ''start_ip'' content" and ?e = "asn_values ''end_ip'' content"
    and ?c = "asn_values ''country_name'' content"
  let ?T = "trace w @ [OpenIn json_path, OpenOut list_path]"
  let ?w2 = "(w\<lparr>trace := ?T\<rparr>)\<lparr>files := (files w)(list_path \<mapsto> [])\<rparr>"
  have o1: "open_in json_path w = (Some (Contents content), log (OpenIn json_path) w)"
    using assms by (simp add: open_in_def)
  have o2: "open_out list_path (log (OpenIn json_path) w) = (True, ?w2)"
    using assms by (simp add: open_out_def log_def)
  have loop: "asn_loop ?s ?e ?c country_filter list_path 0 0 ?w2 =
      (Inr (0 + length (filter (range_accepted ?s ?e ?c country_filter) [0..<length ?s])),
       (w\<lparr>trace := ?T\<rparr>)\<lparr>files := (files w)(list_path \<mapsto>
          [] @ concat (map (\<lambda>i. ?s ! i @ ''-'' @ ?e ! i @ [CHR 0x0A])
                 (filter (range_accepted ?s ?e ?c country_filter) [0..<length ?s])))\<rparr>)"
    by (rule asn_loop_eq)
  show ?thesis
    unfolding build_list_from_asn_json_def o1 prod.case option.case source.case Let_def
      if_not_P [OF build_list_well_formed [OF assms(3,4)]] o2 bool.case loop sum.case
    by (simp add: log_def range_count_def range_lines_def)
qed

lemma asn_example_values:
  "asn_values ''start_ip'' asn_example = [''1.0.0.0'', ''2.0.0.0'', ''3.0.0.0'']"
  "asn_values ''end_ip'' asn_example = [''1.0.0.255'', ''2.0.0.255'', ''3.0.0.255'']"
  "asn_values ''country_name'' asn_example = [''Australia'', ''Norway'', ''China'']"
  by code_simp+

lemma asn_malformed_values:
  "asn_values ''start_ip'' asn_malformed = [''1.0.0.0'', ''2.0.0.0'']"
  "asn_values ''end_ip'' asn_malformed = [''1.0.0.255'']"
  by code_simp+

lemma asn_example_ipv4:
  "is_ipv4 ''1.0.0.0'' = Inr True" "is_ipv4 ''1.0.0.255'' = Inr True"
  "is_ipv4 ''2.0.0.0'' = Inr True" "is_ipv4 ''2.0.0.255'' = Inr True"
  "is_ipv4 ''3.0.0.0'' = Inr True" "is_ipv4 ''3.0.0.255'' = Inr True"
  by code_simp+

lemma asn_example_lower:
  "to_lower ''Australia'' = ''australia''" "to_lower ''Norway'' = ''norway''"
  "to_lower ''China'' = ''china''"
  by code_simp+

lemma asn_example_norway:
  assumes "to_lower country_filter = ''norway''"
  shows "range_lines [''1.0.0.0'', ''2.0.0.0'', ''3.0.0.0'']
           [''1.0.0.255'', ''2.0.0.255'', ''3.0.0.255''] [''Australia'', ''Norway'', ''China'']
           country_filter = ''2.0.0.0-2.0.0.255'' @ [CHR 0x0A]"
    and "range_count [''1.0.0.0'', ''2.0.0.0'', ''3.0.0.0'']
           [''1.0.0.255'', ''2.0.0.255'', ''3.0.0.255''] [''Australia'', ''Norway'', ''China'']
           country_filter = 1"
proof -
  from assms have ne: "country_filter \<noteq> []" by (auto simp: to_lower_def)
  have a0: "\<not> range_accepted [''1.0.0.0'', ''2.0.0.0'', ''3.0.0.0'']
           [''1.0.0.255'', ''2.0.0.255'', ''3.0.0.255''] [''Australia'', ''Norway'', ''China'']
           country_filter 0"
    using ne assms by (simp add: range_accepted_def asn_example_lower)
  have a1: "range_accepted [''1.0.0.0'', ''2.0.0.0'', ''3.0.0.0'']
           [''1.0.0.255'', ''2.0.0.255'', ''3.0.0.255''] [''Australia'', ''Norway'', ''China'']
           country_filter 1"
    using ne assms by (simp add: range_accepted_def asn_example_lower asn_example_ipv4)
  have a2: "\<not> range_accepted [''1.0.0.0'', ''2.0.0.0'', ''3.0.0.0'']
           [''1.0.0.255'', ''2.0.0.255'', ''3.0.0.255''] [''Australia'', ''Norway'', ''China'']
           country_filter 2"
    using ne assms by (simp add: range_accepted_def asn_example_lower)
  have u: "[0..<length [''1.0.0.0'', ''2.0.0.0'', ''3.0.0.0'']] = [0, 1, 2]"
    by (simp add: upt_rec)
  show "range_lines [''1.0.0.0'', ''2.0.0.0'', ''3.0.0.0'']
           [''1.0.0.255'', ''2.0.0.255'', ''3.0.0.255''] [''Australia'', ''Norway'', ''China'']
           country_filter = ''2.0.0.0-2.0.0.255'' @ [CHR 0x0A]"
    unfolding range_lines_def u using a0 a1 a2 by simp
  show "range_count [''1.0.0.0'', ''2.0.0.0'', ''3.0.0.0'']
           [''1.0.0.255'', ''2.0.0.255'', ''3.0.0.255''] [''Australia'', ''Norway'', ''China'']
           country_filter = 1"
    unfolding range_count_def u using a0 a1 a2 by simp
qed

lemma asn_world_ok:
  "''country_asn.json'' \<notin> unreadable asn_world"
  "files asn_world ''country_asn.json'' = Some asn_example"
  "asn_values ''start_ip'' asn_example \<noteq> []"
  "length (asn_values ''start_ip'' asn_example) = length (asn_values ''end_ip'' asn_example)"
  "''list'' \<notin> unwritable asn_world"
  by (simp_all add: asn_world_def asn_example_values)

lemma asn_world_bad:
  "''bad.json'' \<notin> unreadable asn_world"
  "files asn_world ''bad.json'' = Some asn_malformed"
  "asn_values ''start_ip'' asn_malformed = [] \<or>
     length (asn_values ''start_ip'' asn_malformed) \<noteq> length (asn_values ''end_ip'' asn_malformed)"
  by (simp_all add: asn_world_def asn_malformed_values)



lemma range_lines_nonempty:
  assumes "0 < range_count starts ends countries country_filter"
  shows "range_lines starts ends countries country_filter \<noteq> []"
proof -
  from assms obtain i where
    "i \<in> set (filter (range_accepted starts ends countries country_filter) [0..<length starts])"
    unfolding range_count_def by (metis length_greater_0_conv last_in_set)
  then show ?thesis
    unfolding range_lines_def by (auto simp del: set_filter)
qed

lemma build_list_directory:
  assumes "json_path \<notin> unreadable w" "files w json_path = None" "json_path \<in> dirs w"
  shows "build_list_from_asn_json json_path list_path country_filter w =
     (Inl ios_failure, w\<lparr>trace := trace w @ [OpenIn json_path]\<rparr>)"
  using assms by (simp add: build_list_from_asn_json_def open_in_def log_def)

text \<open>
  The result of \<open>build_list_from_asn_json\<close> by the kind of its input path. On a path
  that does not open it returns false. On a regular file it returns false exactly when
  the \<open>start_ip\<close> sequence is empty, or the \<open>start_ip\<close> and \<open>end_ip\<close> sequences differ in
  length, or the list file does not open, or no range is accepted, and true exactly when
  none of these holds, in which case the list file holds the accepted ranges, at least
  one line. In both cases it returns. On a directory it throws.
\<close>

lemma build_list_result:
  "((json_path \<in> unreadable w \<or> (files w json_path = None \<and> json_path \<notin> dirs w)) \<longrightarrow>
      fst (build_list_from_asn_json json_path list_path country_filter w) = Inr False)
   \<and> (json_path \<notin> unreadable w \<and> files w json_path = Some content \<longrightarrow>
       ((fst (build_list_from_asn_json json_path list_path country_filter w) = Inr False) =
          (asn_values ''start_ip'' content = []
           \<or> length (asn_values ''start_ip'' content) \<noteq> length (asn_values ''end_ip'' content)
           \<or> list_path \<in> unwritable w
           \<or> range_count (asn_values ''start_ip'' content) (asn_values ''end_ip'' content)
                 (asn_values ''country_name'' content) country_filter = 0))
       \<and> ((fst (build_list_from_asn_json json_path list_path country_filter w) = Inr True) =
          (asn_values ''start_ip'' content \<noteq> []
           \<and> length (asn_values ''start_ip'' content) = length (asn_values ''end_ip'' content)
           \<and> list_path \<notin> unwritable w
           \<and> 0 < range_count (asn_values ''start_ip'' content) (asn_values ''end_ip'' content)
                 (asn_values ''country_name'' content) country_filter))
       \<and> (fst (build_list_from_asn_json json_path list_path country_filter w) = Inr True \<longrightarrow>
            files (snd (build_list_from_asn_json json_path list_path country_filter w)) list_path
              = Some (range_lines (asn_values ''start_ip'' content)
                  (asn_values ''end_ip'' content) (asn_values ''country_name'' content)
                  country_filter)
            \<and> range_lines (asn_values ''start_ip'' content) (asn_values ''end_ip'' content)
                  (asn_values ''country_name'' content) country_filter \<noteq> []))
   \<and> ((json_path \<in> unreadable w \<or> files w json_path \<noteq> None \<or> json_path \<notin> dirs w) \<longrightarrow>
        (\<exists>ok. fst (build_list_from_asn_json json_path list_path country_filter w) = Inr ok))
   \<and> (json_path \<notin> unreadable w \<and> files w json_path = None \<and> json_path \<in> dirs w \<longrightarrow>
        fst (build_list_from_asn_json json_path list_path country_filter w) = Inl ios_failure)"
proof -
  let ?b = "build_list_from_asn_json json_path list_path country_filter w"
  have unread: "(json_path \<in> unreadable w \<or> (files w json_path = None \<and> json_path \<notin> dirs w))
      \<longrightarrow> fst ?b = Inr False"
    by (auto simp: build_list_unreadable)
  have dir: "json_path \<notin> unreadable w \<and> files w json_path = None \<and> json_path \<in> dirs w \<longrightarrow>
        fst ?b = Inl ios_failure"
    by (auto simp: build_list_directory)
  have readable: "fst ?b = Inr (asn_values ''start_ip'' content \<noteq> []
           \<and> length (asn_values ''start_ip'' content) = length (asn_values ''end_ip'' content)
           \<and> list_path \<notin> unwritable w
           \<and> 0 < range_count (asn_values ''start_ip'' content) (asn_values ''end_ip'' content)
                 (asn_values ''country_name'' content) country_filter)
      \<and> (fst ?b = Inr True \<longrightarrow>
            files (snd ?b) list_path
              = Some (range_lines (asn_values ''start_ip'' content)
                  (asn_values ''end_ip'' content) (asn_values ''country_name'' content)
                  country_filter))"
    if r: "json_path \<notin> unreadable w" "files w json_path = Some content"
  proof (cases "asn_values ''start_ip'' content = [] \<or>
         length (asn_values ''start_ip'' content) \<noteq> length (asn_values ''end_ip'' content)")
    case True
    from build_list_malformed [OF r True] True show ?thesis by auto
  next
    case False
    then have v: "asn_values ''start_ip'' content \<noteq> []"
      "length (asn_values ''start_ip'' content) = length (asn_values ''end_ip'' content)"
      by auto
    show ?thesis
    proof (cases "list_path \<in> unwritable w")
      case True
      from build_list_unwritable [OF r v True] True show ?thesis by simp
    next
      case False
      from build_list_written [OF r v False] v False show ?thesis by simp
    qed
  qed
  have total: "(json_path \<in> unreadable w \<or> files w json_path \<noteq> None \<or> json_path \<notin> dirs w) \<longrightarrow>
        (\<exists>ok. fst ?b = Inr ok)"
  proof
    assume a: "json_path \<in> unreadable w \<or> files w json_path \<noteq> None \<or> json_path \<notin> dirs w"
    show "\<exists>ok. fst ?b = Inr ok"
    proof (cases "json_path \<in> unreadable w \<or> (files w json_path = None \<and> json_path \<notin> dirs w)")
      case True
      with unread show ?thesis by blast
    next
      case False
      with a obtain c where "json_path \<notin> unreadable w" "files w json_path = Some c" by auto
      from build_list_malformed [OF this] build_list_unwritable [OF this]
        build_list_written [OF this]
      show ?thesis by (metis fst_conv)
    qed
  qed
  have iffs: "json_path \<notin> unreadable w \<and> files w json_path = Some content \<longrightarrow>
       ((fst ?b = Inr False) =
          (asn_values ''start_ip'' content = []
           \<or> length (asn_values ''start_ip'' content) \<noteq> length (asn_values ''end_ip'' content)
           \<or> list_path \<in> unwritable w
           \<or> range_count (asn_values ''start_ip'' content) (asn_values ''end_ip'' content)
                 (asn_values ''country_name'' content) country_filter = 0))
       \<and> ((fst ?b = Inr True) =
          (asn_values ''start_ip'' content \<noteq> []
           \<and> length (asn_values ''start_ip'' content) = length (asn_values ''end_ip'' content)
           \<and> list_path \<notin> unwritable w
           \<and> 0 < range_count (asn_values ''start_ip'' content) (asn_values ''end_ip'' content)
                 (asn_values ''country_name'' content) country_filter))
       \<and> (fst ?b = Inr True \<longrightarrow>
            files (snd ?b) list_path
              = Some (range_lines (asn_values ''start_ip'' content)
                  (asn_values ''end_ip'' content) (asn_values ''country_name'' content)
                  country_filter)
            \<and> range_lines (asn_values ''start_ip'' content) (asn_values ''end_ip'' content)
                  (asn_values ''country_name'' content) country_filter \<noteq> [])"
  proof (intro impI, elim conjE)
    assume r: "json_path \<notin> unreadable w" "files w json_path = Some content"
    note readable [OF r]
    then show "((fst ?b = Inr False) =
          (asn_values ''start_ip'' content = []
           \<or> length (asn_values ''start_ip'' content) \<noteq> length (asn_values ''end_ip'' content)
           \<or> list_path \<in> unwritable w
           \<or> range_count (asn_values ''start_ip'' content) (asn_values ''end_ip'' content)
                 (asn_values ''country_name'' content) country_filter = 0))
       \<and> ((fst ?b = Inr True) =
          (asn_values ''start_ip'' content \<noteq> []
           \<and> length (asn_values ''start_ip'' content) = length (asn_values ''end_ip'' content)
           \<and> list_path \<notin> unwritable w
           \<and> 0 < range_count (asn_values ''start_ip'' content) (asn_values ''end_ip'' content)
                 (asn_values ''country_name'' content) country_filter))
       \<and> (fst ?b = Inr True \<longrightarrow>
            files (snd ?b) list_path
              = Some (range_lines (asn_values ''start_ip'' content)
                  (asn_values ''end_ip'' content) (asn_values ''country_name'' content)
                  country_filter)
            \<and> range_lines (asn_values ''start_ip'' content) (asn_values ''end_ip'' content)
                  (asn_values ''country_name'' content) country_filter \<noteq> [])"
      using range_lines_nonempty
        [of "asn_values ''start_ip'' content" "asn_values ''end_ip'' content"
            "asn_values ''country_name'' content" country_filter]
      by auto
  qed
  from unread iffs total dir show ?thesis by blast
qed

lemma asn_example_sweden:
  "range_count [''1.0.0.0'', ''2.0.0.0'', ''3.0.0.0'']
     [''1.0.0.255'', ''2.0.0.255'', ''3.0.0.255''] [''Australia'', ''Norway'', ''China'']
     ''Sweden'' = 0"
proof -
  have l: "to_lower ''Sweden'' = ''sweden''" by code_simp
  have u: "[0..<length [''1.0.0.0'', ''2.0.0.0'', ''3.0.0.0'']] = [0, 1, 2]"
    by (simp add: upt_rec)
  show ?thesis
    unfolding range_count_def u by (simp add: range_accepted_def asn_example_lower l)
qed

text \<open>
  On the example table: a path that does not exist, a filter that selects one record, a
  filter that selects none, and the table whose second record lacks its \<open>end_ip\<close>.
\<close>

lemma build_list_result_examples:
  "fst (build_list_from_asn_json ''missing.json'' ''list'' [] asn_world) = Inr False
   \<and> fst (build_list_from_asn_json ''country_asn.json'' ''list'' ''norway'' asn_world) = Inr True
   \<and> fst (build_list_from_asn_json ''country_asn.json'' ''list'' ''Sweden'' asn_world) = Inr False
   \<and> fst (build_list_from_asn_json ''bad.json'' ''list'' [] asn_world) = Inr False"
proof -
  have m: "files asn_world ''missing.json'' = None" "''missing.json'' \<notin> dirs asn_world"
    by (simp_all add: asn_world_def)
  have l: "to_lower ''norway'' = ''norway''" by code_simp
  have n: "0 < range_count (asn_values ''start_ip'' asn_example) (asn_values ''end_ip'' asn_example)
         (asn_values ''country_name'' asn_example) ''norway''"
    unfolding asn_example_values asn_example_norway(2) [OF l] by simp
  have s: "range_count (asn_values ''start_ip'' asn_example) (asn_values ''end_ip'' asn_example)
         (asn_values ''country_name'' asn_example) ''Sweden'' = 0"
    unfolding asn_example_values by (rule asn_example_sweden)
  have d: "length (asn_values ''start_ip'' asn_malformed) \<noteq> length (asn_values ''end_ip'' asn_malformed)"
    by (simp add: asn_malformed_values)
  have r1: "fst (build_list_from_asn_json ''missing.json'' ''list'' [] asn_world) = Inr False"
    using build_list_result [of "''missing.json''" asn_world "''list''" "[]"] m
    by blast
  have r2: "fst (build_list_from_asn_json ''country_asn.json'' ''list'' ''norway'' asn_world) = Inr True"
    using build_list_result [of "''country_asn.json''" asn_world "''list''" "''norway''"
        asn_example] asn_world_ok n
    by blast
  have r3: "fst (build_list_from_asn_json ''country_asn.json'' ''list'' ''Sweden'' asn_world) = Inr False"
    using build_list_result [of "''country_asn.json''" asn_world "''list''" "''Sweden''"
        asn_example] asn_world_ok s
    by blast
  have r4: "fst (build_list_from_asn_json ''bad.json'' ''list'' [] asn_world) = Inr False"
    using build_list_result [of "''bad.json''" asn_world "''list''" "[]" asn_malformed]
      asn_world_bad d
    by blast
  from r1 r2 r3 r4 show ?thesis by blast
qed

text \<open>
  C6. \<open>build_list_from_asn_json\<close> is to return on every input, false when no range
  line is written, without a crash. It does not when the input path is a directory,
  which \<open>main\<close> passes on when its name ends in \<open>.json\<close>: the stream opens, so the test
  of the open passes, and the read of the contents throws \<open>std::ios_base::failure\<close>,
  which nothing catches. No range is written and the function returns neither false nor
  true.
\<close>

theorem build_list_from_asn_json_directory:
  "build_list_from_asn_json ''ranges.json'' ''list'' [] asn_dir_world =
     (Inl ios_failure, asn_dir_world\<lparr>trace := [OpenIn ''ranges.json'']\<rparr>)
   \<and> fst (build_list_from_asn_json ''ranges.json'' ''list'' [] asn_dir_world) \<noteq> Inr False
   \<and> fst (build_list_from_asn_json ''ranges.json'' ''list'' [] asn_dir_world) \<noteq> Inr True
   \<and> files (snd (build_list_from_asn_json ''ranges.json'' ''list'' [] asn_dir_world)) ''list''
       = None"
  by (simp add: build_list_from_asn_json_def open_in_def log_def asn_dir_world_def)

text \<open>
  C10. When the document opens and validation fails (no \<open>start_ip\<close>, or \<open>start_ip\<close> and
  \<open>end_ip\<close> sequences of different lengths), \<open>build_list_from_asn_json\<close> returns false
  after opening the document and reporting the parse error only: the list file is
  never opened, and every file, the list file among them, keeps its contents.
\<close>

theorem build_list_from_asn_json_validation_first:
  assumes "json_path \<notin> unreadable w" "files w json_path = Some content"
    and "asn_values ''start_ip'' content = [] \<or>
         length (asn_values ''start_ip'' content) \<noteq> length (asn_values ''end_ip'' content)"
  shows "build_list_from_asn_json json_path list_path country_filter w =
       (Inr False, w\<lparr>trace := trace w @ [OpenIn json_path, Cerr (CouldNotParse json_path)]\<rparr>)
   \<and> files (snd (build_list_from_asn_json json_path list_path country_filter w)) = files w
   \<and> OpenOut list_path \<notin>
        set (drop (length (trace w))
               (trace (snd (build_list_from_asn_json json_path list_path country_filter w))))"
  using build_list_malformed [OF assms] by simp

theorem build_list_from_asn_json_validation_first_witness:
  "''bad.json'' \<notin> unreadable asn_world
   \<and> files asn_world ''bad.json'' = Some asn_malformed
   \<and> length (asn_values ''start_ip'' asn_malformed) \<noteq> length (asn_values ''end_ip'' asn_malformed)
   \<and> fst (build_list_from_asn_json ''bad.json'' ''list'' [] asn_world) = Inr False
   \<and> files (snd (build_list_from_asn_json ''bad.json'' ''list'' [] asn_world)) ''list''
       = Some (''10.0.0.1'' @ [CHR 0x0A])
   \<and> trace (snd (build_list_from_asn_json ''bad.json'' ''list'' [] asn_world))
       = [OpenIn ''bad.json'', Cerr (CouldNotParse ''bad.json'')]"
proof -
  have d: "length (asn_values ''start_ip'' asn_malformed) \<noteq> length (asn_values ''end_ip'' asn_malformed)"
    by (simp add: asn_malformed_values)
  have f: "files asn_world ''list'' = Some (''10.0.0.1'' @ [CHR 0x0A])" "trace asn_world = []"
    by (simp_all add: asn_world_def)
  from build_list_from_asn_json_validation_first [OF asn_world_bad, of "''list''" "[]"]
  have "build_list_from_asn_json ''bad.json'' ''list'' [] asn_world =
       (Inr False, asn_world\<lparr>trace := trace asn_world @
          [OpenIn ''bad.json'', Cerr (CouldNotParse ''bad.json'')]\<rparr>)" by blast
  with f asn_world_bad(1,2) d show ?thesis by simp
qed

section \<open>Properties of main\<close>





















end
